theory Spec2Isabelle
  imports Main "HOL-Library.Word"
begin

section \<open>Values, keys and errors\<close>

text \<open>
  The exceptions of the Python code. \<open>EOFError\<close> is raised by \<open>Decoder.read\<close> (the
  specification calls it EndOfData), \<open>IndexError\<close> and \<open>KeyError\<close> by
  \<open>DataViewer.set\<close> (OutOfSequenceError and DuplicateKeyError), \<open>IndexError\<close> also by
  \<open>list.pop\<close> on an empty list, \<open>ValueError\<close> by the drivers (InvalidFormat), by a
  negative \<open>seek\<close> on \<open>io.BytesIO\<close> and by a read of a size below \<open>-1\<close> on a file,
  \<open>OSError\<close> by a negative \<open>seek\<close> on a file, \<open>StructError\<close> by \<open>struct.unpack\<close> on a
  buffer of the wrong length.
\<close>

datatype error = EOFError | IndexError | KeyError | ValueError | OSError | StructError
  | NotImplementedError | AssertionError

type_synonym byte = "8 word"

text \<open>A name given to the sink is a Python \<open>str\<close> or an \<open>int\<close> (\<open>view.map(i)\<close>).\<close>

datatype key = KStr string | KInt int

text \<open>
  Leaf values. A float is kept as the bit pattern \<open>struct.unpack\<close> read; \<open>VObj a\<close> is a
  reference to the container at address \<open>a\<close> of the tree sink's store.
\<close>

datatype val = VInt int | VFloat nat | VStr string | VBytes "byte list" | VBool bool
  | VObj nat

text \<open>The Python \<open>int\<close> a value holds (the integer readers return no other value).\<close>

fun int_of :: "val \<Rightarrow> int" where
  "int_of (VInt i) = i"
| "int_of _ = 0"

text \<open>Python's truth test of a name: \<open>None\<close>, the empty string and 0 are false.\<close>

fun truthy :: "key option \<Rightarrow> bool" where
  "truthy None = False"
| "truthy (Some (KStr s)) = (s \<noteq> [])"
| "truthy (Some (KInt i)) = (i \<noteq> 0)"

section \<open>Byte sources\<close>

text \<open>
  A decoder reads from two classes of stream: the buffered file that \<open>open(path, 'rb')\<close>
  returns, which the drivers pass to the top-level decoder, and \<open>io.BytesIO\<close>, the class of
  every sub-reader. Both are a buffer and the offset of the next byte; \<open>is_file\<close> tells
  them apart. \<open>read(size)\<close> returns at most \<open>size\<close> bytes, fewer only at the end of the
  data; \<open>read()\<close> and \<open>read(-1)\<close> return everything left. For a size below \<open>-1\<close>
  \<open>io.BytesIO\<close> again returns everything left, while the buffered file raises
  \<open>ValueError\<close> and consumes nothing. A negative \<open>seek\<close> raises \<open>ValueError\<close> on
  \<open>io.BytesIO\<close> and \<open>OSError\<close> on the file.
\<close>

record source =
  buf :: "byte list"
  tell :: nat
  is_file :: bool

definition BytesIO :: "byte list \<Rightarrow> source" where
  "BytesIO data = \<lparr>buf = data, tell = 0, is_file = False\<rparr>"

text \<open>\<open>open(path, 'rb')\<close> for a file that holds \<open>data\<close>\<close>

definition open_rb :: "byte list \<Rightarrow> source" where
  "open_rb data = \<lparr>buf = data, tell = 0, is_file = True\<rparr>"

definition remaining :: "source \<Rightarrow> byte list" where
  "remaining s = drop (tell s) (buf s)"

definition stream_read :: "int option \<Rightarrow> source \<Rightarrow> (error + byte list) \<times> source" where
  "stream_read sz s =
     (let avail = remaining s
      in case sz of
           None \<Rightarrow> (Inr avail, s\<lparr>tell := tell s + length avail\<rparr>)
         | Some n \<Rightarrow>
             if n < - 1 \<and> is_file s then (Inl ValueError, s)
             else if n < 0 then (Inr avail, s\<lparr>tell := tell s + length avail\<rparr>)
             else (Inr (take (nat n) avail),
                   s\<lparr>tell := tell s + length (take (nat n) avail)\<rparr>))"

definition stream_seek :: "int \<Rightarrow> source \<Rightarrow> error + source" where
  "stream_seek position s =
     (if position < 0 then Inl (if is_file s then OSError else ValueError)
      else Inr (s\<lparr>tell := nat position\<rparr>))"

section \<open>The sinks\<close>

subsection \<open>PlainViewer\<close>

text \<open>
  What \<open>show\<close> prints (\<open>show_line\<close> here) is kept as the indentation and the operands of
  the format string:
  \<open>SetText n v\<close> stands for \<open>'%s = %r' % (n, v)\<close>, \<open>EnterText n\<close> for \<open>'%s:' % n\<close>,
  \<open>BlobText n len bs dots\<close> for \<open>'%s[%d]: %s'\<close> with the hex of \<open>bs\<close> and the trailing
  \<open>'...'\<close> when \<open>dots\<close>.
\<close>

datatype line_text = SetText key val | EnterText key | BlobText key nat "byte list" bool

record plainviewer =
  level :: int
  printed :: "(string \<times> line_text) list"

definition show_line :: "line_text \<Rightarrow> plainviewer \<Rightarrow> plainviewer" where
  "show_line t v = v\<lparr>printed := printed v @ [(concat (replicate (nat (level v)) ''  ''), t)]\<rparr>"

definition PlainViewer_set :: "key \<Rightarrow> val \<Rightarrow> plainviewer \<Rightarrow> plainviewer" where
  "PlainViewer_set name x v = show_line (SetText name x) v"

definition PlainViewer_blob :: "key \<Rightarrow> byte list \<Rightarrow> plainviewer \<Rightarrow> plainviewer" where
  "PlainViewer_blob name data v =
     show_line (BlobText name (length data) (take 16 data) (length data > 16)) v"

definition enter :: "key \<Rightarrow> plainviewer \<Rightarrow> plainviewer" where
  "enter name v = (let v1 = show_line (EnterText name) v in v1\<lparr>level := level v1 + 1\<rparr>)"

definition PlainViewer_exit :: "plainviewer \<Rightarrow> plainviewer" where
  "PlainViewer_exit v = v\<lparr>level := level v - 1\<rparr>"

definition PlainViewer_init :: plainviewer where
  "PlainViewer_init = \<lparr>level = 0, printed = []\<rparr>"

subsection \<open>DataViewer\<close>

text \<open>
  \<open>DataViewer\<close> mutates the container \<open>self.cur\<close> refers to, and the same object is
  reachable from its parent. The containers therefore live in a store, addressed by
  number; \<open>cur\<close> and the entries of \<open>stack\<close> are addresses, \<open>fresh\<close> is the next unused
  one. A \<open>dict\<close> keeps its insertion order, so it is a list of pairs.
\<close>

datatype container = Dict "(key \<times> val) list" | List "val list"

record dataviewer =
  store :: "nat \<Rightarrow> container"
  fresh :: nat
  stack :: "nat list"
  cur :: nat

definition DataViewer_init :: dataviewer where
  "DataViewer_init = \<lparr>store = (\<lambda>_. Dict []), fresh = 1, stack = [], cur = 0\<rparr>"

definition DataViewer_set :: "key \<Rightarrow> val \<Rightarrow> dataviewer \<Rightarrow> error option \<times> dataviewer" where
  "DataViewer_set name x v =
     (case store v (cur v) of
        List xs \<Rightarrow>
          if name \<noteq> KInt (int (length xs)) then (Some IndexError, v)
          else (None, v\<lparr>store := (store v)(cur v := List (xs @ [x]))\<rparr>)
      | Dict m \<Rightarrow>
          if name \<in> fst ` set m then (Some KeyError, v)
          else (None, v\<lparr>store := (store v)(cur v := Dict (m @ [(name, x)]))\<rparr>))"

definition DataViewer_enter :: "container \<Rightarrow> key \<Rightarrow> dataviewer \<Rightarrow> error option \<times> dataviewer" where
  "DataViewer_enter obj name v =
     (let new = fresh v;
          v1 = v\<lparr>store := (store v)(new := obj), fresh := Suc new\<rparr>
      in case DataViewer_set name (VObj new) v1 of
           (Some e, v2) \<Rightarrow> (Some e, v2)
         | (None, v2) \<Rightarrow> (None, v2\<lparr>stack := stack v2 @ [cur v2], cur := new\<rparr>))"

definition DataViewer_enter_map :: "key \<Rightarrow> dataviewer \<Rightarrow> error option \<times> dataviewer" where
  "DataViewer_enter_map name v = DataViewer_enter (Dict []) name v"

definition DataViewer_enter_array :: "key \<Rightarrow> dataviewer \<Rightarrow> error option \<times> dataviewer" where
  "DataViewer_enter_array name v = DataViewer_enter (List []) name v"

definition DataViewer_exit :: "dataviewer \<Rightarrow> error option \<times> dataviewer" where
  "DataViewer_exit v =
     (if stack v = [] then (Some IndexError, v)
      else (None, v\<lparr>cur := last (stack v), stack := butlast (stack v)\<rparr>))"

definition result :: "dataviewer \<Rightarrow> nat" where
  "result v = cur v"

subsection \<open>The sink of a decoder\<close>

datatype viewer = Plain plainviewer | Data dataviewer

text \<open>The calls a decoder makes on its sink.\<close>

datatype call = EnterMap key | EnterArray key | Exit | Set key val | Blob key "byte list"

fun Viewer_call :: "call \<Rightarrow> viewer \<Rightarrow> error option \<times> viewer" where
  "Viewer_call (EnterMap name) (Plain v) = (None, Plain (enter name v))"
| "Viewer_call (EnterArray name) (Plain v) = (None, Plain (enter name v))"
| "Viewer_call Exit (Plain v) = (None, Plain (PlainViewer_exit v))"
| "Viewer_call (Set name x) (Plain v) = (None, Plain (PlainViewer_set name x v))"
| "Viewer_call (Blob name data) (Plain v) = (None, Plain (PlainViewer_blob name data v))"
| "Viewer_call (EnterMap name) (Data v) = map_prod id Data (DataViewer_enter_map name v)"
| "Viewer_call (EnterArray name) (Data v) = map_prod id Data (DataViewer_enter_array name v)"
| "Viewer_call Exit (Data v) = map_prod id Data (DataViewer_exit v)"
| "Viewer_call (Set name x) (Data v) = map_prod id Data (DataViewer_set name x v)"
| "Viewer_call (Blob name data) (Data v) =
     map_prod id Data (DataViewer_set name (VBytes data) v)"

section \<open>Decoder\<close>

text \<open>
  The fields of \<open>Decoder\<close>; \<open>big\<close> stands for \<open>self.end\<close> (\<open>'>'\<close> when true, \<open>'<'\<close>
  otherwise). \<open>calls\<close> is not a field of the class: it lists the calls made on
  \<open>self.view\<close>, oldest first, each with whether it returned normally, so that
  properties of the sequence of sink calls can be stated.
\<close>

record decoder =
  stream :: source
  view :: viewer
  pos :: int
  big :: bool
  stream_stack :: "(source \<times> int) list"
  calls :: "(call \<times> bool) list"

definition Decoder :: "source \<Rightarrow> viewer \<Rightarrow> bool \<Rightarrow> decoder" where
  "Decoder s v big_endian =
     \<lparr>stream = s, view = v, pos = 0, big = big_endian, stream_stack = [], calls = []\<rparr>"

definition read :: "int option \<Rightarrow> decoder \<Rightarrow> (error + byte list) \<times> decoder" where
  "read sz d =
     (case stream_read sz (stream d) of
        (Inl e, s1) \<Rightarrow> (Inl e, d\<lparr>stream := s1\<rparr>)
      | (Inr data, s1) \<Rightarrow>
          (let d1 = d\<lparr>stream := s1\<rparr>
           in case sz of
                None \<Rightarrow> (Inr data, d1\<lparr>pos := pos d1 + int (length data)\<rparr>)
              | Some n \<Rightarrow>
                  if int (length data) < n then (Inl EOFError, d1)
                  else (Inr data, d1\<lparr>pos := pos d1 + int (length data)\<rparr>)))"

definition seek :: "int \<Rightarrow> decoder \<Rightarrow> error option \<times> decoder" where
  "seek position d =
     (case stream_seek position (stream d) of
        Inl e \<Rightarrow> (Some e, d)
      | Inr s1 \<Rightarrow> (None, d\<lparr>stream := s1, pos := position\<rparr>))"

definition view_call :: "call \<Rightarrow> decoder \<Rightarrow> error option \<times> decoder" where
  "view_call c d =
     (let (e, v1) = Viewer_call c (view d)
      in (e, d\<lparr>view := v1, calls := calls d @ [(c, e = None)]\<rparr>))"

definition vset :: "key \<Rightarrow> val \<Rightarrow> decoder \<Rightarrow> error option \<times> decoder" where
  "vset name x d = view_call (Set name x) d"

subsection \<open>struct.unpack\<close>

datatype desc = Fmt_b | Fmt_B | Fmt_h | Fmt_H | Fmt_i | Fmt_I | Fmt_q | Fmt_Q
  | Fmt_f | Fmt_d

fun calcsize :: "desc \<Rightarrow> nat" where
  "calcsize Fmt_b = 1" | "calcsize Fmt_B = 1"
| "calcsize Fmt_h = 2" | "calcsize Fmt_H = 2"
| "calcsize Fmt_i = 4" | "calcsize Fmt_I = 4"
| "calcsize Fmt_q = 8" | "calcsize Fmt_Q = 8"
| "calcsize Fmt_f = 4" | "calcsize Fmt_d = 8"

datatype kind = Signed | Unsigned | Floating

fun kind_of :: "desc \<Rightarrow> kind" where
  "kind_of Fmt_b = Signed" | "kind_of Fmt_B = Unsigned"
| "kind_of Fmt_h = Signed" | "kind_of Fmt_H = Unsigned"
| "kind_of Fmt_i = Signed" | "kind_of Fmt_I = Unsigned"
| "kind_of Fmt_q = Signed" | "kind_of Fmt_Q = Unsigned"
| "kind_of Fmt_f = Floating" | "kind_of Fmt_d = Floating"

text \<open>The unsigned x of a byte string, most significant byte first.\<close>

fun be_nat :: "nat \<Rightarrow> byte list \<Rightarrow> nat" where
  "be_nat acc [] = acc"
| "be_nat acc (b # bs) = be_nat (acc * 256 + unat b) bs"

definition unpack :: "bool \<Rightarrow> desc \<Rightarrow> byte list \<Rightarrow> error + val" where
  "unpack big_endian desc data =
     (if length data \<noteq> calcsize desc then Inl StructError
      else
        let u = be_nat 0 (if big_endian then data else rev data);
            bits = 8 * calcsize desc
        in Inr (case kind_of desc of
                  Unsigned \<Rightarrow> VInt (int u)
                | Signed \<Rightarrow> VInt (if u < 2 ^ (bits - 1) then int u else int u - 2 ^ bits)
                | Floating \<Rightarrow> VFloat u))"

definition scalar :: "key option \<Rightarrow> int \<Rightarrow> desc \<Rightarrow> decoder \<Rightarrow> (error + val) \<times> decoder" where
  "scalar name sz desc d =
     (case read (Some sz) d of
        (Inl e, d1) \<Rightarrow> (Inl e, d1)
      | (Inr data, d1) \<Rightarrow>
          (case unpack (big d1) desc data of
             Inl e \<Rightarrow> (Inl e, d1)
           | Inr x \<Rightarrow>
               if truthy name then
                 (case vset (the name) x d1 of
                    (Some e, d2) \<Rightarrow> (Inl e, d2)
                  | (None, d2) \<Rightarrow> (Inr x, d2))
               else (Inr x, d1)))"

definition i1 :: "key option \<Rightarrow> decoder \<Rightarrow> (error + val) \<times> decoder" where
  "i1 name = scalar name 1 Fmt_b"

definition u1 :: "key option \<Rightarrow> decoder \<Rightarrow> (error + val) \<times> decoder" where
  "u1 name = scalar name 1 Fmt_B"

definition i2 :: "key option \<Rightarrow> decoder \<Rightarrow> (error + val) \<times> decoder" where
  "i2 name = scalar name 2 Fmt_h"

definition u2 :: "key option \<Rightarrow> decoder \<Rightarrow> (error + val) \<times> decoder" where
  "u2 name = scalar name 2 Fmt_H"

definition i4 :: "key option \<Rightarrow> decoder \<Rightarrow> (error + val) \<times> decoder" where
  "i4 name = scalar name 4 Fmt_i"

definition u4 :: "key option \<Rightarrow> decoder \<Rightarrow> (error + val) \<times> decoder" where
  "u4 name = scalar name 4 Fmt_I"

definition i8 :: "key option \<Rightarrow> decoder \<Rightarrow> (error + val) \<times> decoder" where
  "i8 name = scalar name 8 Fmt_q"

definition u8 :: "key option \<Rightarrow> decoder \<Rightarrow> (error + val) \<times> decoder" where
  "u8 name = scalar name 8 Fmt_Q"

definition f4 :: "key option \<Rightarrow> decoder \<Rightarrow> (error + val) \<times> decoder" where
  "f4 name = scalar name 4 Fmt_f"

definition f8 :: "key option \<Rightarrow> decoder \<Rightarrow> (error + val) \<times> decoder" where
  "f8 name = scalar name 8 Fmt_d"

section \<open>Scoped blocks\<close>

text \<open>
  How a block of statements ends: it runs to its end, executes \<open>return\<close>, or raises.
  A block is a function of the decoder; \<open>None\<close> is reserved for a loop that has not
  finished within its fuel.
\<close>

datatype outcome = Normal | Returned | Raised error

type_synonym block = "decoder \<Rightarrow> (outcome \<times> decoder) option"

text \<open>A statement that returns nothing, as a block.\<close>

fun stmt :: "error option \<times> decoder \<Rightarrow> (outcome \<times> decoder) option" where
  "stmt (None, d) = Some (Normal, d)"
| "stmt (Some e, d) = Some (Raised e, d)"

text \<open>Sequencing: the second block runs only when the first ran to its end.\<close>

fun and_then :: "(outcome \<times> decoder) option \<Rightarrow> block \<Rightarrow> (outcome \<times> decoder) option" where
  "and_then None k = None"
| "and_then (Some (Normal, d)) k = k d"
| "and_then (Some (Returned, d)) k = Some (Returned, d)"
| "and_then (Some (Raised e, d)) k = Some (Raised e, d)"

text \<open>
  \<open>try: body finally: cleanup\<close>. The cleanup runs however the body ended; an
  exception of the cleanup replaces the body's outcome.
\<close>

definition try_finally :: "block \<Rightarrow> (decoder \<Rightarrow> error option \<times> decoder) \<Rightarrow> block" where
  "try_finally body cleanup d =
     (case body d of
        None \<Rightarrow> None
      | Some (r, d1) \<Rightarrow>
          (case cleanup d1 of
             (Some e, d2) \<Rightarrow> Some (Raised e, d2)
           | (None, d2) \<Rightarrow> Some (r, d2)))"

text \<open>\<open>self.stream, self.pos = self.stream_stack.pop()\<close>\<close>

definition stream_stack_pop :: "decoder \<Rightarrow> error option \<times> decoder" where
  "stream_stack_pop d =
     (if stream_stack d = [] then (Some IndexError, d)
      else (None, d\<lparr>stream := fst (last (stream_stack d)),
                     pos := snd (last (stream_stack d)),
                     stream_stack := butlast (stream_stack d)\<rparr>))"

text \<open>The state in which the body of \<open>with self.substream(size)\<close> starts.\<close>

definition substream_enter :: "byte list \<Rightarrow> decoder \<Rightarrow> decoder" where
  "substream_enter data d =
     d\<lparr>stream_stack := stream_stack d @ [(stream d, pos d)],
       stream := BytesIO data, pos := 0\<rparr>"

definition substream :: "int \<Rightarrow> block \<Rightarrow> block" where
  "substream sz body d =
     (case read (Some sz) d of
        (Inl e, d1) \<Rightarrow> Some (Raised e, d1)
      | (Inr data, d1) \<Rightarrow> try_finally body stream_stack_pop (substream_enter data d1))"

definition endian :: "bool \<Rightarrow> block \<Rightarrow> block" where
  "endian b body d =
     (let old_end = big d
      in try_finally body (\<lambda>d1. (None, d1\<lparr>big := old_end\<rparr>)) (d\<lparr>big := b\<rparr>))"

definition Viewer_map :: "key \<Rightarrow> block \<Rightarrow> block" where
  "Viewer_map name body d =
     (case view_call (EnterMap name) d of
        (Some e, d1) \<Rightarrow> Some (Raised e, d1)
      | (None, d1) \<Rightarrow> try_finally body (view_call Exit) d1)"

definition Viewer_array :: "key \<Rightarrow> block \<Rightarrow> block" where
  "Viewer_array name body d =
     (case view_call (EnterArray name) d of
        (Some e, d1) \<Rightarrow> Some (Raised e, d1)
      | (None, d1) \<Rightarrow> try_finally body (view_call Exit) d1)"

section \<open>Code that uses a decoder\<close>

text \<open>
  A driver, a handler or the body of a scoped block is code that calls the methods of
  \<open>Decoder\<close> and of its sink. \<open>prog\<close> is the syntax of such code: every operation of
  the interface, sequencing, \<open>return\<close>, \<open>raise\<close>, \<open>try/except\<close> and a function
  call. What follows a read depends on the bytes read, what follows \<open>self.pos\<close> on the
  position. The sink is reached through the scoped constructs and \<open>set\<close>/\<open>blob\<close>.
\<close>

datatype prog =
    Skip
  | Return
  | Raise error
  | Seq prog prog
  | Read "int option" "byte list \<Rightarrow> prog"
  | Scalar "key option" desc "val \<Rightarrow> prog"
  | GetPos "int \<Rightarrow> prog"
  | Seek int
  | Substream int prog
  | Endian bool prog
  | VSet key val
  | VBlob key "byte list"
  | VMap key prog
  | VArray key prog
  | Try prog "error \<Rightarrow> bool" prog
  | Call prog

text \<open>\<open>except\<close>: the handler runs when the block raised an exception it accepts.\<close>

fun except :: "(outcome \<times> decoder) option \<Rightarrow> (error \<Rightarrow> bool) \<Rightarrow> block
    \<Rightarrow> (outcome \<times> decoder) option" where
  "except (Some (Raised e, d)) h k = (if h e then k d else Some (Raised e, d))"
| "except r h k = r"

text \<open>A \<open>return\<close> ends the function that executes it, not its caller.\<close>

fun returned :: "(outcome \<times> decoder) option \<Rightarrow> (outcome \<times> decoder) option" where
  "returned (Some (Returned, d)) = Some (Normal, d)"
| "returned r = r"

primrec exec :: "prog \<Rightarrow> block" where
  "exec Skip d = Some (Normal, d)"
| "exec Return d = Some (Returned, d)"
| "exec (Raise e) d = Some (Raised e, d)"
| "exec (Seq p q) d = and_then (exec p d) (exec q)"
| "exec (Read sz k) d =
     (case read sz d of
        (Inl e, d1) \<Rightarrow> Some (Raised e, d1)
      | (Inr data, d1) \<Rightarrow> exec (k data) d1)"
| "exec (Scalar name desc k) d =
     (case scalar name (int (calcsize desc)) desc d of
        (Inl e, d1) \<Rightarrow> Some (Raised e, d1)
      | (Inr x, d1) \<Rightarrow> exec (k x) d1)"
| "exec (GetPos k) d = exec (k (pos d)) d"
| "exec (Seek position) d = stmt (seek position d)"
| "exec (Substream sz p) d = substream sz (exec p) d"
| "exec (Endian b p) d = endian b (exec p) d"
| "exec (VSet name x) d = stmt (vset name x d)"
| "exec (VBlob name data) d = stmt (view_call (Blob name data) d)"
| "exec (VMap name p) d = Viewer_map name (exec p) d"
| "exec (VArray name p) d = Viewer_array name (exec p) d"
| "exec (Try p h q) d = except (exec p d) h (exec q)"
| "exec (Call p) d = returned (exec p d)"

section \<open>The blob renderer of the drivers\<close>

text \<open>
  \<open>hexdump\<close> is the same method in \<open>QtDecoder\<close>, \<open>FLVDecoder\<close> and \<open>JpgDecoder\<close>
  (\<open>putv\<close> and \<open>vset\<close> both call \<open>self.view.set\<close>). The class \<open>HexDumper\<close> it
  iterates is not part of the repository's sources: \<open>iter_lines\<close> is a parameter,
  the list of the lines \<open>HexDumper(bytes).iter_lines()\<close> yields.
\<close>

definition putv :: "key \<Rightarrow> val \<Rightarrow> decoder \<Rightarrow> error option \<times> decoder" where
  "putv name x d = view_call (Set name x) d"

text \<open>\<open>line.partition(': ')\<close>: the text before the first \<open>': '\<close> and the text after it.\<close>

fun partition_colon :: "string \<Rightarrow> string \<times> string" where
  "partition_colon [] = ([], [])"
| "partition_colon (c # cs) =
     (if c = CHR '':'' \<and> take 1 cs = '' '' then ([], drop 1 cs)
      else (let (a, b) = partition_colon cs in (c # a, b)))"

text \<open>\<open>offset[1:].replace(' ','0')\<close>\<close>

definition offset_name :: "string \<Rightarrow> string" where
  "offset_name offset = map (\<lambda>c. if c = CHR '' '' then CHR ''0'' else c) (drop 1 offset)"

definition line_call :: "string \<Rightarrow> call" where
  "line_call line = (let (offset, dump) = partition_colon line
                     in Set (KStr (offset_name offset)) (VStr dump))"

fun hexdump_lines :: "string list \<Rightarrow> decoder \<Rightarrow> error option \<times> decoder" where
  "hexdump_lines [] d = (None, d)"
| "hexdump_lines (line # rest) d =
     (case view_call (line_call line) d of
        (Some e, d1) \<Rightarrow> (Some e, d1)
      | (None, d1) \<Rightarrow> hexdump_lines rest d1)"

definition hexdump :: "(byte list \<Rightarrow> string list) \<Rightarrow> byte list \<Rightarrow> nat \<Rightarrow> decoder
    \<Rightarrow> error option \<times> decoder" where
  "hexdump iter_lines data limit d =
     (case hexdump_lines (iter_lines (take limit data)) d of
        (Some e, d1) \<Rightarrow> (Some e, d1)
      | (None, d1) \<Rightarrow>
          if length data > limit
          then putv (KStr ''dump_size'') (VInt (int (length data))) d1
          else (None, d1))"

section \<open>QtDecoder\<close>

text \<open>\<open>b4.decode('iso-8859-1')\<close>: each byte is the character of the same code.\<close>

definition s4 :: "decoder \<Rightarrow> (error + string) \<times> decoder" where
  "s4 d = (case read (Some 4) d of
             (Inl e, d1) \<Rightarrow> (Inl e, d1)
           | (Inr b4, d1) \<Rightarrow> (Inr (map (\<lambda>b. char_of (unat b)) b4), d1))"

text \<open>
  \<open>getattr(self, 'do_'+atype, None)\<close>. The handlers that are \<open>atoms\<close> or
  \<open>atom_data\<close> drive the recursion; the handlers of the leaf atoms (\<open>do_tkhd\<close>,
  \<open>do_hdlr\<close>, ...) are field layouts written with the decoder's interface and are
  taken as the parameter \<open>layout\<close>, from the atom type to the handler's code.
\<close>

definition container_atoms :: "string list" where
  "container_atoms = [''moov'', ''trak'', ''mdia'', ''minf'', ''stbl'', ''udta'']"

definition layout_atoms :: "string list" where
  "layout_atoms = [''tkhd'', ''hdlr'', ''mdhd'', ''mvhd'', ''vmhd'', ''dref'', ''stsd'',
                   ''stts'', ''stss'', ''stsc'', ''stsz'', ''stco'']"

text \<open>\<open>"'%s'" % atype\<close>\<close>

definition quoted :: "string \<Rightarrow> string" where
  "quoted atype = [CHR 0x27] @ atype @ [CHR 0x27]"

text \<open>
  The body of \<open>with self.view.map("'%s'" % atype)\<close> in \<open>atom\<close>, for the handler
  \<open>meth\<close> (the variable \<open>method\<close>) that \<open>getattr\<close> found (\<open>None\<close> when there is none).
\<close>

definition atom_body :: "(byte list \<Rightarrow> string list) \<Rightarrow> val \<Rightarrow> block option \<Rightarrow> block" where
  "atom_body il sz meth d =
     and_then (stmt (putv (KStr ''_size'') sz d))
       (\<lambda>d1. and_then (case meth of None \<Rightarrow> Some (Normal, d1) | Some m \<Rightarrow> returned (m d1))
          (\<lambda>d2. case read None d2 of
                   (Inl e, d3) \<Rightarrow> Some (Raised e, d3)
                 | (Inr rest, d3) \<Rightarrow>
                     if rest \<noteq> [] then stmt (hexdump il rest 256 d3)
                     else Some (Normal, d3)))"

text \<open>
  The loop \<open>while self.atom(): pass\<close> and the recursion through the handlers are
  bounded by fuel: \<open>None\<close> means the fuel ran out.
\<close>

fun atoms :: "(byte list \<Rightarrow> string list) \<Rightarrow> (string \<Rightarrow> prog) \<Rightarrow> nat \<Rightarrow> block"
  and atom :: "(byte list \<Rightarrow> string list) \<Rightarrow> (string \<Rightarrow> prog) \<Rightarrow> nat \<Rightarrow> decoder
    \<Rightarrow> ((error + bool) \<times> decoder) option"
  and atom_data :: "(byte list \<Rightarrow> string list) \<Rightarrow> (string \<Rightarrow> prog) \<Rightarrow> nat \<Rightarrow> block"
where
  "atoms il layout 0 d = None"
| "atoms il layout (Suc n) d =
     (case atom il layout n d of
        None \<Rightarrow> None
      | Some (Inl e, d1) \<Rightarrow> Some (Raised e, d1)
      | Some (Inr True, d1) \<Rightarrow> atoms il layout n d1
      | Some (Inr False, d1) \<Rightarrow> Some (Normal, d1))"
| "atom il layout 0 d = None"
| "atom il layout (Suc n) d =
     (case u4 None d of
        (Inl e, d1) \<Rightarrow> if e = EOFError then Some (Inr False, d1) else Some (Inl e, d1)
      | (Inr sz, d1) \<Rightarrow>
          if sz = VInt 0 then Some (Inr False, d1)
          else
            (case s4 d1 of
               (Inl e, d2) \<Rightarrow> Some (Inl e, d2)
             | (Inr atype, d2) \<Rightarrow>
                 (case substream (int_of sz - 8)
                         (Viewer_map (KStr (quoted atype))
                            (atom_body il sz
                               (if atype \<in> set container_atoms
                                  then Some (\<lambda>d3. atoms il layout n d3)
                                else if atype = ''dinf''
                                  then Some (\<lambda>d3. atom_data il layout n d3)
                                else if atype \<in> set layout_atoms
                                  then Some (exec (layout atype))
                                else None))) d2 of
                    None \<Rightarrow> None
                  | Some (Raised e, d4) \<Rightarrow> Some (Inl e, d4)
                  | Some (_, d4) \<Rightarrow> Some (Inr True, d4))))"
| "atom_data il layout 0 d = None"
| "atom_data il layout (Suc n) d =
     (case atom il layout n d of
        None \<Rightarrow> None
      | Some (Inl e, d1) \<Rightarrow> Some (Raised e, d1)
      | Some (Inr _, d1) \<Rightarrow>
          (case read None d1 of
             (Inl e, d2) \<Rightarrow> Some (Raised e, d2)
           | (Inr data, d2) \<Rightarrow> stmt (hexdump il data 256 d2)))"

text \<open>\<open>QtDecoder(file, view).run()\<close>\<close>

definition QtDecoder_run :: "(byte list \<Rightarrow> string list) \<Rightarrow> (string \<Rightarrow> prog) \<Rightarrow> nat
    \<Rightarrow> source \<Rightarrow> viewer \<Rightarrow> (outcome \<times> decoder) option" where
  "QtDecoder_run il layout fuel file v = atoms il layout fuel (Decoder file v True)"

section \<open>Observing a run\<close>

text \<open>
  Predicates on the calls a run makes on its sink and on what a block leaves behind.
  \<open>enter_calls\<close> counts the calls of \<open>enter_map\<close> and \<open>enter_array\<close>, \<open>entered\<close>
  those that returned normally, \<open>exit_calls\<close> the calls of \<open>exit\<close>. \<open>open_scopes\<close> is
  what the sink keeps about its open scopes: the indentation level of the text sink, the
  stack and the current container of the tree sink.
\<close>

fun is_enter :: "call \<Rightarrow> bool" where
  "is_enter (EnterMap n) = True"
| "is_enter (EnterArray n) = True"
| "is_enter c = False"

definition enter_calls :: "(call \<times> bool) list \<Rightarrow> nat" where
  "enter_calls cs = length (filter (\<lambda>c. is_enter (fst c)) cs)"

definition entered :: "(call \<times> bool) list \<Rightarrow> nat" where
  "entered cs = length (filter (\<lambda>c. is_enter (fst c) \<and> snd c) cs)"

definition exit_calls :: "(call \<times> bool) list \<Rightarrow> nat" where
  "exit_calls cs = length (filter (\<lambda>c. fst c = Exit) cs)"

definition new_calls :: "decoder \<Rightarrow> decoder \<Rightarrow> (call \<times> bool) list" where
  "new_calls d d' = drop (length (calls d)) (calls d')"

fun open_scopes :: "viewer \<Rightarrow> int + nat list \<times> nat" where
  "open_scopes (Plain v) = Inl (level v)"
| "open_scopes (Data v) = Inr (stack v, cur v)"

definition paired :: "(call \<times> bool) list \<Rightarrow> bool" where
  "paired cs \<longleftrightarrow> entered cs = exit_calls cs \<and> (\<forall>c \<in> set cs. fst c = Exit \<longrightarrow> snd c)"

fun is_plain :: "viewer \<Rightarrow> bool" where
  "is_plain (Plain v) = True"
| "is_plain (Data v) = False"

text \<open>
  \<open>same_frame d d'\<close>: between \<open>d\<close> and \<open>d'\<close> the stack of suspended cursors and the
  sink's open scopes are unchanged, the calls made on the sink extend those made before,
  the new ones are paired, and on the text sink all of them returned normally.
\<close>

definition same_frame :: "decoder \<Rightarrow> decoder \<Rightarrow> bool" where
  "same_frame d d' \<longleftrightarrow>
     stream_stack d' = stream_stack d \<and>
     open_scopes (view d') = open_scopes (view d) \<and>
     take (length (calls d)) (calls d') = calls d \<and>
     paired (new_calls d d') \<and>
     (is_plain (view d) \<longrightarrow> list_all snd (new_calls d d'))"

text \<open>The ten typed readers with the number of bytes each reads.\<close>

definition typed_readers :: "((key option \<Rightarrow> decoder \<Rightarrow> (error + val) \<times> decoder) \<times> nat) list" where
  "typed_readers =
     [(u1, 1), (i1, 1), (u2, 2), (i2, 2), (u4, 4), (i4, 4), (u8, 8), (i8, 8), (f4, 4), (f8, 8)]"

text \<open>The position counter agrees with the offset of the active source.\<close>

definition in_step :: "decoder \<Rightarrow> bool" where
  "in_step d \<longleftrightarrow> pos d = int (tell (stream d))"

text \<open>Every map of the tree sink has pairwise different keys.\<close>

definition unique_names :: "viewer \<Rightarrow> bool" where
  "unique_names v \<longleftrightarrow>
     (case v of
        Plain pv \<Rightarrow> True
      | Data dv \<Rightarrow> (\<forall>a. case store dv a of Dict m \<Rightarrow> distinct (map fst m) | List xs \<Rightarrow> True))"

text \<open>The code \<open>self.view.set(k1, x1); self.view.set(k2, x2); ...\<close>\<close>

fun set_all :: "(key \<times> val) list \<Rightarrow> prog" where
  "set_all [] = Skip"
| "set_all (kx # rest) = Seq (VSet (fst kx) (snd kx)) (set_all rest)"


section \<open>Properties of the primitives and of scoped blocks\<close>

lemma paired_Nil: "paired []"
  by (simp add: paired_def entered_def exit_calls_def)

lemma paired_append: "paired cs \<Longrightarrow> paired cs' \<Longrightarrow> paired (cs @ cs')"
  by (auto simp add: paired_def entered_def exit_calls_def)

lemma same_frame_refl: "same_frame d d"
  by (simp add: same_frame_def new_calls_def paired_Nil)

lemma is_plain_scopes: "open_scopes v' = open_scopes v \<Longrightarrow> is_plain v' = is_plain v"
  by (cases v; cases v') simp_all

lemma Viewer_call_plain:
  "is_plain v \<Longrightarrow> fst (Viewer_call c v) = None \<and> is_plain (snd (Viewer_call c v))"
  by (cases c; cases v) simp_all

lemma prefix_calls:
  "take (length xs) ys = xs \<Longrightarrow> ys = xs @ drop (length xs) ys"
  by (metis append_take_drop_id)

lemma same_frame_trans:
  assumes "same_frame d d1" "same_frame d1 d2"
  shows "same_frame d d2"
proof -
  from assms(1) obtain cs where 1: "calls d1 = calls d @ cs" "paired cs"
    unfolding same_frame_def new_calls_def by (metis prefix_calls)
  from assms(2) obtain cs' where 2: "calls d2 = calls d1 @ cs'" "paired cs'"
    unfolding same_frame_def new_calls_def by (metis prefix_calls)
  have "is_plain (view d1) = is_plain (view d)"
    using assms(1) is_plain_scopes[of "view d1" "view d"] by (simp add: same_frame_def)
  then show ?thesis using assms 1 2
    by (simp add: same_frame_def new_calls_def paired_append)
qed

lemma same_frame_calls:
  "stream_stack d' = stream_stack d \<Longrightarrow> open_scopes (view d') = open_scopes (view d) \<Longrightarrow>
   calls d' = calls d @ cs \<Longrightarrow> paired cs \<Longrightarrow> (is_plain (view d) \<Longrightarrow> list_all snd cs) \<Longrightarrow>
   same_frame d d'"
  by (simp add: same_frame_def new_calls_def)

lemma same_frame_read: "same_frame d (snd (read sz d))"
  by (auto simp add: read_def Let_def same_frame_def new_calls_def paired_Nil
        split: prod.splits option.splits sum.splits)

lemma same_frame_seek: "same_frame d (snd (seek p d))"
  by (auto simp add: seek_def same_frame_def new_calls_def paired_Nil split: sum.splits)

lemma DataViewer_set_scopes:
  "stack (snd (DataViewer_set n x v)) = stack v \<and> cur (snd (DataViewer_set n x v)) = cur v"
  by (simp add: DataViewer_set_def split: container.splits)

lemma Viewer_call_leaf_scopes:
  "\<not> is_enter c \<Longrightarrow> c \<noteq> Exit \<Longrightarrow> open_scopes (snd (Viewer_call c v)) = open_scopes v"
  by (cases c; cases v) (simp_all add: PlainViewer_set_def PlainViewer_blob_def show_line_def
        DataViewer_set_scopes)

lemma same_frame_leaf:
  assumes "\<not> is_enter c" "c \<noteq> Exit"
  shows "same_frame d (snd (view_call c d))"
proof -
  have "paired [(c, ok)]" for ok
    using assms by (simp add: paired_def entered_def exit_calls_def)
  then show ?thesis
    using Viewer_call_leaf_scopes[OF assms, of "view d"] Viewer_call_plain[of "view d" c]
    by (auto simp add: view_call_def same_frame_def new_calls_def split: prod.splits)
qed

lemma Viewer_call_error: "Viewer_call c v = (Some e, v') \<Longrightarrow> e = IndexError \<or> e = KeyError"
  by (cases c; cases v)
     (auto simp add: DataViewer_set_def DataViewer_enter_map_def DataViewer_enter_array_def
        DataViewer_enter_def DataViewer_exit_def Let_def
        split: container.splits if_splits prod.splits option.splits)

lemma same_frame_scalar: "same_frame d (snd (scalar name sz desc d))"
proof -
  have 1: "same_frame d (snd (read (Some sz) d))" by (rule same_frame_read)
  have 2: "same_frame d1 (snd (vset k x d1))" for d1 k x
    unfolding vset_def by (rule same_frame_leaf) simp_all
  show ?thesis
    using 1 2 same_frame_trans
    apply (auto simp add: scalar_def split: prod.splits sum.splits option.splits)
    apply (metis snd_conv)+
    done
qed

lemma Viewer_enter_exit:
  assumes "is_enter c" "Viewer_call c v = (None, v1)" "open_scopes v2 = open_scopes v1"
  shows "\<exists>v3. Viewer_call Exit v2 = (None, v3) \<and> open_scopes v3 = open_scopes v"
proof (cases v)
  case (Plain pv)
  with assms obtain pv2 where "v2 = Plain pv2" "level pv2 = level pv + 1"
    by (cases c; cases v2) (auto simp add: enter_def show_line_def Let_def)
  with Plain show ?thesis by (simp add: PlainViewer_exit_def)
next
  case (Data dv)
  with assms obtain dv2 where "v2 = Data dv2" "stack dv2 = stack dv @ [cur dv]"
    by (cases c; cases v2)
       (auto simp add: DataViewer_enter_map_def DataViewer_enter_array_def
          DataViewer_enter_def DataViewer_set_def Let_def
          split: prod.splits option.splits container.splits if_splits)
  with Data show ?thesis by (simp add: DataViewer_exit_def)
qed

lemma Viewer_enter_fails:
  assumes "is_enter c" "Viewer_call c v = (Some e, v1)"
  shows "open_scopes v1 = open_scopes v"
  using assms
  by (cases c; cases v)
     (auto simp add: DataViewer_enter_map_def DataViewer_enter_array_def
          DataViewer_enter_def DataViewer_set_def Let_def
          split: prod.splits option.splits container.splits if_splits)

lemma scoped_sink:
  assumes c: "is_enter c" and body: "\<exists>r d'. body d1 = Some (r, d') \<and> same_frame d1 d'"
    and enter: "view_call c d = (None, d1)"
  shows "\<exists>r d'. try_finally body (view_call Exit) d1 = Some (r, d') \<and> same_frame d d'"
proof -
  from body obtain r d2 where b: "body d1 = Some (r, d2)" and f: "same_frame d1 d2" by blast
  from enter have e1: "Viewer_call c (view d) = (None, view d1)"
    and c1: "calls d1 = calls d @ [(c, True)]" and s1: "stream_stack d1 = stream_stack d"
    by (auto simp add: view_call_def split: prod.splits)
  from f obtain cs where c2: "calls d2 = calls d1 @ cs" and p: "paired cs"
    and ok: "is_plain (view d1) \<longrightarrow> list_all snd cs"
    unfolding same_frame_def new_calls_def by (metis prefix_calls)
  have pl: "is_plain (view d) \<Longrightarrow> is_plain (view d1)"
    using Viewer_call_plain[of "view d" c] e1 by simp
  from f have o2: "open_scopes (view d2) = open_scopes (view d1)"
    and s2: "stream_stack d2 = stream_stack d1"
    by (simp_all add: same_frame_def)
  from Viewer_enter_exit[OF c e1 o2] obtain v3
    where x: "Viewer_call Exit (view d2) = (None, v3)" and o3: "open_scopes v3 = open_scopes (view d)"
    by blast
  let ?d3 = "d2\<lparr>view := v3, calls := calls d2 @ [(Exit, True)]\<rparr>"
  have x3: "view_call Exit d2 = (None, ?d3)" using x by (simp add: view_call_def)
  have "paired ([(c, True)] @ cs @ [(Exit, True)])"
    using p c by (auto simp add: paired_def entered_def exit_calls_def)
  then have "same_frame d ?d3"
    using c1 c2 s1 s2 o3 ok pl
    by (intro same_frame_calls[where cs="[(c, True)] @ cs @ [(Exit, True)]"]) simp_all
  then show ?thesis using b x3 by (simp add: try_finally_def)
qed

lemma failed_enter:
  assumes c: "is_enter c" and enter: "view_call c d = (Some e, d1)"
  shows "same_frame d d1"
proof -
  from enter have e1: "Viewer_call c (view d) = (Some e, view d1)"
    and c1: "calls d1 = calls d @ [(c, False)]" and s1: "stream_stack d1 = stream_stack d"
    by (auto simp add: view_call_def split: prod.splits)
  have "paired [(c, False)]" using c by (auto simp add: paired_def entered_def exit_calls_def)
  moreover have "\<not> is_plain (view d)"
    using Viewer_call_plain[of "view d" c] e1 by auto
  ultimately show ?thesis
    using Viewer_enter_fails[OF c e1] c1 s1 by (intro same_frame_calls) simp_all
qed

lemma Viewer_map_framed:
  assumes "\<And>d1. \<exists>r d'. body d1 = Some (r, d') \<and> same_frame d1 d'"
  shows "\<exists>r d'. Viewer_map name body d = Some (r, d') \<and> same_frame d d'"
proof (cases "view_call (EnterMap name) d")
  case (Pair e d1)
  show ?thesis
  proof (cases e)
    case None
    with Pair scoped_sink[where c="EnterMap name" and d=d and ?d1.0=d1 and body=body, OF _ assms] show ?thesis
      by (simp add: Viewer_map_def)
  next
    case (Some err)
    with Pair failed_enter[where c="EnterMap name" and d=d and e=err and ?d1.0=d1] show ?thesis
      by (simp add: Viewer_map_def)
  qed
qed

lemma Viewer_array_framed:
  assumes "\<And>d1. \<exists>r d'. body d1 = Some (r, d') \<and> same_frame d1 d'"
  shows "\<exists>r d'. Viewer_array name body d = Some (r, d') \<and> same_frame d d'"
proof (cases "view_call (EnterArray name) d")
  case (Pair e d1)
  show ?thesis
  proof (cases e)
    case None
    with Pair scoped_sink[where c="EnterArray name" and d=d and ?d1.0=d1 and body=body, OF _ assms] show ?thesis
      by (simp add: Viewer_array_def)
  next
    case (Some err)
    with Pair failed_enter[where c="EnterArray name" and d=d and e=err and ?d1.0=d1] show ?thesis
      by (simp add: Viewer_array_def)
  qed
qed

lemma substream_enter_exit:
  assumes "same_frame (substream_enter data d) d2"
  shows "stream_stack_pop d2 =
           (None, d2\<lparr>stream := stream d, pos := pos d, stream_stack := stream_stack d\<rparr>)"
  using assms by (simp add: same_frame_def substream_enter_def stream_stack_pop_def)

lemma same_frame_restore:
  assumes "same_frame (substream_enter data d) d2"
  shows "same_frame d (d2\<lparr>stream := stream d, pos := pos d, stream_stack := stream_stack d\<rparr>)"
  using assms by (simp add: same_frame_def substream_enter_def new_calls_def)

lemma substream_body:
  assumes "\<And>d1. \<exists>r d'. body d1 = Some (r, d') \<and> same_frame d1 d'"
  shows "\<exists>r d2. body (substream_enter data d) = Some (r, d2) \<and>
           try_finally body stream_stack_pop (substream_enter data d) =
             Some (r, d2\<lparr>stream := stream d, pos := pos d, stream_stack := stream_stack d\<rparr>) \<and>
           same_frame (substream_enter data d) d2"
proof -
  from assms obtain r d2 where b: "body (substream_enter data d) = Some (r, d2)"
    and f: "same_frame (substream_enter data d) d2" by blast
  then show ?thesis using substream_enter_exit[OF f] by (simp add: try_finally_def)
qed

lemma substream_framed:
  assumes "\<And>d1. \<exists>r d'. body d1 = Some (r, d') \<and> same_frame d1 d'"
  shows "\<exists>r d'. substream sz body d = Some (r, d') \<and> same_frame d d'"
proof (cases "read (Some sz) d")
  case (Pair x d1)
  have f1: "same_frame d d1" using same_frame_read[of d "Some sz"] Pair by simp
  show ?thesis
  proof (cases x)
    case (Inl e)
    with Pair f1 show ?thesis by (simp add: substream_def)
  next
    case (Inr data)
    from substream_body[where body=body and data=data and d=d1, OF assms] obtain r d2
      where t: "try_finally body stream_stack_pop (substream_enter data d1) =
             Some (r, d2\<lparr>stream := stream d1, pos := pos d1, stream_stack := stream_stack d1\<rparr>)"
        and f: "same_frame (substream_enter data d1) d2" by blast
    from same_frame_trans[OF f1 same_frame_restore[OF f]] t Pair Inr show ?thesis
      by (simp add: substream_def)
  qed
qed

lemma endian_framed:
  assumes "\<And>d1. \<exists>r d'. body d1 = Some (r, d') \<and> same_frame d1 d'"
  shows "\<exists>r d'. endian b body d = Some (r, d') \<and> same_frame d d'"
proof -
  from assms obtain r d2 where b: "body (d\<lparr>big := b\<rparr>) = Some (r, d2)"
    and f: "same_frame (d\<lparr>big := b\<rparr>) d2" by blast
  from f have "same_frame d (d2\<lparr>big := big d\<rparr>)"
    by (simp add: same_frame_def new_calls_def)
  with b show ?thesis by (simp add: endian_def try_finally_def Let_def)
qed

lemma stmt_framed:
  "same_frame d (snd m) \<Longrightarrow> \<exists>r d'. stmt m = Some (r, d') \<and> same_frame d d'"
  by (cases m; cases "fst m") auto

lemma and_then_framed:
  assumes "\<exists>r d1. m = Some (r, d1) \<and> same_frame d d1"
    and "\<And>d1. \<exists>r d'. k d1 = Some (r, d') \<and> same_frame d1 d'"
  shows "\<exists>r d'. and_then m k = Some (r, d') \<and> same_frame d d'"
proof -
  from assms(1) obtain r d1 where m: "m = Some (r, d1)" and f: "same_frame d d1" by blast
  show ?thesis
  proof (cases r)
    case Normal
    with m f assms(2)[of d1] show ?thesis by (auto intro: same_frame_trans)
  qed (use m f in auto)
qed

lemma except_framed:
  assumes "\<exists>r d1. m = Some (r, d1) \<and> same_frame d d1"
    and "\<And>d1. \<exists>r d'. k d1 = Some (r, d') \<and> same_frame d1 d'"
  shows "\<exists>r d'. except m h k = Some (r, d') \<and> same_frame d d'"
proof -
  from assms(1) obtain r d1 where m: "m = Some (r, d1)" and f: "same_frame d d1" by blast
  show ?thesis
  proof (cases r)
    case (Raised e)
    with m f assms(2)[of d1] show ?thesis by (auto intro: same_frame_trans)
  qed (use m f in auto)
qed

lemma returned_framed:
  assumes "\<exists>r d1. m = Some (r, d1) \<and> same_frame d d1"
  shows "\<exists>r d'. returned m = Some (r, d') \<and> same_frame d d'"
proof -
  from assms(1) obtain r d1 where m: "m = Some (r, d1)" and f: "same_frame d d1" by blast
  then show ?thesis by (cases r) auto
qed

lemma exec_framed: "\<exists>r d'. exec p d = Some (r, d') \<and> same_frame d d'"
proof (induction p arbitrary: d)
  case Skip
  show ?case by (simp add: same_frame_refl)
next
  case Return
  show ?case by (simp add: same_frame_refl)
next
  case (Raise e)
  show ?case by (simp add: same_frame_refl)
next
  case (Seq p q)
  show ?case using and_then_framed[OF Seq.IH(1) Seq.IH(2)] by simp
next
  case (Read sz k)
  obtain x d1 where r: "read sz d = (x, d1)" by (cases "read sz d")
  then have f: "same_frame d d1" using same_frame_read[of d sz] by simp
  show ?case
  proof (cases x)
    case (Inl e)
    with r f show ?thesis by simp
  next
    case (Inr data)
    have "\<exists>r d'. exec (k data) d1 = Some (r, d') \<and> same_frame d1 d'"
      by (rule Read.IH) (rule rangeI)
    then obtain r' d' where "exec (k data) d1 = Some (r', d')" "same_frame d1 d'"
      by blast
    with r f Inr show ?thesis by (auto intro: same_frame_trans)
  qed
next
  case (Scalar name desc k)
  obtain x d1 where r: "scalar name (int (calcsize desc)) desc d = (x, d1)"
    by (cases "scalar name (int (calcsize desc)) desc d")
  then have f: "same_frame d d1" using same_frame_scalar[of d name "int (calcsize desc)" desc] by simp
  show ?case
  proof (cases x)
    case (Inl e)
    with r f show ?thesis by simp
  next
    case (Inr y)
    have "\<exists>r d'. exec (k y) d1 = Some (r, d') \<and> same_frame d1 d'"
      by (rule Scalar.IH) (rule rangeI)
    then obtain r' d' where "exec (k y) d1 = Some (r', d')" "same_frame d1 d'"
      by blast
    with r f Inr show ?thesis by (auto intro: same_frame_trans)
  qed
next
  case (GetPos k)
  have "\<exists>r d'. exec (k (pos d)) d = Some (r, d') \<and> same_frame d d'"
    by (rule GetPos.IH) (rule rangeI)
  then show ?case by simp
next
  case (Seek p)
  show ?case using stmt_framed[OF same_frame_seek] by simp
next
  case (Substream sz p)
  show ?case using substream_framed[of "exec p", OF Substream.IH] by simp
next
  case (Endian b p)
  show ?case using endian_framed[of "exec p", OF Endian.IH] by simp
next
  case (VSet name x)
  have "same_frame d (snd (vset name x d))" unfolding vset_def by (rule same_frame_leaf) simp_all
  then show ?case using stmt_framed by simp
next
  case (VBlob name data)
  have "same_frame d (snd (view_call (Blob name data) d))" by (rule same_frame_leaf) simp_all
  then show ?case using stmt_framed by simp
next
  case (VMap name p)
  show ?case using Viewer_map_framed[of "exec p", OF VMap.IH] by simp
next
  case (VArray name p)
  show ?case using Viewer_array_framed[of "exec p", OF VArray.IH] by simp
next
  case (Try p h q)
  show ?case using except_framed[OF Try.IH(1) Try.IH(2)] by simp
next
  case (Call p)
  show ?case using returned_framed[OF Call.IH] by simp
qed

subsection \<open>Reads\<close>

lemma read_None:
  "read None d =
     (Inr (remaining (stream d)),
      d\<lparr>stream := (stream d)\<lparr>tell := tell (stream d) + length (remaining (stream d))\<rparr>,
        pos := pos d + int (length (remaining (stream d)))\<rparr>)"
  by (simp add: read_def stream_read_def Let_def)

lemma read_Some_short:
  "int (length (remaining (stream d))) < n \<Longrightarrow>
   read (Some n) d =
     (Inl EOFError,
      d\<lparr>stream := (stream d)\<lparr>tell := tell (stream d) + length (remaining (stream d))\<rparr>\<rparr>)"
  by (auto simp add: read_def stream_read_def Let_def)

lemma read_Some_enough:
  "0 \<le> n \<Longrightarrow> n \<le> int (length (remaining (stream d))) \<Longrightarrow>
   read (Some n) d =
     (Inr (take (nat n) (remaining (stream d))),
      d\<lparr>stream := (stream d)\<lparr>tell := tell (stream d) + nat n\<rparr>, pos := pos d + n\<rparr>)"
  by (auto simp add: read_def stream_read_def Let_def min_def)

lemma read_Some_negative:
  "n < 0 \<Longrightarrow> n = - 1 \<or> \<not> is_file (stream d) \<Longrightarrow>
   read (Some n) d =
     (Inr (remaining (stream d)),
      d\<lparr>stream := (stream d)\<lparr>tell := tell (stream d) + length (remaining (stream d))\<rparr>,
        pos := pos d + int (length (remaining (stream d)))\<rparr>)"
  by (auto simp add: read_def stream_read_def Let_def)

lemma read_Some_refused:
  "n < - 1 \<Longrightarrow> is_file (stream d) \<Longrightarrow> read (Some n) d = (Inl ValueError, d)"
  by (simp add: read_def stream_read_def Let_def)

lemma read_EOF_iff:
  "fst (read (Some n) d) = Inl EOFError \<longleftrightarrow> int (length (remaining (stream d))) < n"
  by (auto simp add: read_def stream_read_def Let_def)

lemma unpack_ok: "length data = calcsize desc \<Longrightarrow> \<exists>x. unpack b desc data = Inr x"
  by (simp add: unpack_def Let_def)

lemma scalar_EOF_iff:
  "fst (scalar name (int (calcsize desc)) desc d) = Inl EOFError
     \<longleftrightarrow> length (remaining (stream d)) < calcsize desc"
proof (cases "length (remaining (stream d)) < calcsize desc")
  case True
  then show ?thesis by (simp add: scalar_def read_Some_short)
next
  case False
  then have le: "int (calcsize desc) \<le> int (length (remaining (stream d)))" by simp
  obtain x where x: "unpack (big d) desc (take (calcsize desc) (remaining (stream d))) = Inr x"
    using unpack_ok[of "take (calcsize desc) (remaining (stream d))" desc "big d"] False
    by auto
  show ?thesis using False x
    by (auto simp add: scalar_def read_Some_enough[OF _ le] vset_def view_call_def
          split: prod.splits option.splits dest: Viewer_call_error)
qed

lemma typed_readers_EOF:
  "(rd, k) \<in> set typed_readers \<Longrightarrow>
   fst (rd name d) = Inl EOFError \<longleftrightarrow> length (remaining (stream d)) < k"
  unfolding typed_readers_def u1_def i1_def u2_def i2_def u4_def i4_def u8_def i8_def
    f4_def f8_def
  using scalar_EOF_iff[of name Fmt_B d] scalar_EOF_iff[of name Fmt_b d]
    scalar_EOF_iff[of name Fmt_H d] scalar_EOF_iff[of name Fmt_h d]
    scalar_EOF_iff[of name Fmt_I d] scalar_EOF_iff[of name Fmt_i d]
    scalar_EOF_iff[of name Fmt_Q d] scalar_EOF_iff[of name Fmt_q d]
    scalar_EOF_iff[of name Fmt_f d] scalar_EOF_iff[of name Fmt_d d]
  by auto

subsection \<open>The tree sink\<close>

lemma DataViewer_set_Dict:
  "store v (cur v) = Dict m \<Longrightarrow>
   DataViewer_set name x v =
     (if name \<in> fst ` set m then (Some KeyError, v)
      else (None, v\<lparr>store := (store v)(cur v := Dict (m @ [(name, x)]))\<rparr>))"
  by (simp add: DataViewer_set_def)

lemma DataViewer_set_List:
  "store v (cur v) = List xs \<Longrightarrow>
   DataViewer_set name x v =
     (if name \<noteq> KInt (int (length xs)) then (Some IndexError, v)
      else (None, v\<lparr>store := (store v)(cur v := List (xs @ [x]))\<rparr>))"
  by (simp add: DataViewer_set_def)

lemma unique_names_set:
  "unique_names (Data v) \<Longrightarrow> unique_names (Data (snd (DataViewer_set name x v)))"
proof (cases "store v (cur v)")
  case (Dict m)
  assume u: "unique_names (Data v)"
  then have "distinct (map fst m)"
    using Dict by (auto simp add: unique_names_def split: container.splits dest: spec[of _ "cur v"])
  with u Dict show ?thesis
    by (auto simp add: DataViewer_set_Dict unique_names_def split: container.splits)
next
  case (List xs)
  assume "unique_names (Data v)"
  with List show ?thesis
    by (auto simp add: DataViewer_set_List unique_names_def split: container.splits)
qed

lemma unique_names_enter:
  assumes "unique_names (Data v)" "obj = Dict [] \<or> obj = List []"
  shows "unique_names (Data (snd (DataViewer_enter obj name v)))"
proof -
  let ?v1 = "v\<lparr>store := (store v)(fresh v := obj), fresh := Suc (fresh v)\<rparr>"
  have "unique_names (Data ?v1)"
    using assms by (auto simp add: unique_names_def split: container.splits)
  from unique_names_set[OF this, of name "VObj (fresh v)"] show ?thesis
    by (auto simp add: DataViewer_enter_def Let_def unique_names_def
          split: prod.splits option.splits)
qed

lemma unique_names_call: "unique_names v \<Longrightarrow> unique_names (snd (Viewer_call c v))"
proof (cases v)
  case (Plain pv)
  then show ?thesis by (cases c) (simp_all add: unique_names_def)
next
  case (Data dv)
  assume u: "unique_names v"
  show ?thesis
  proof (cases c)
    case Exit
    with u Data show ?thesis by (auto simp add: DataViewer_exit_def unique_names_def)
  qed (use u Data unique_names_set unique_names_enter in
        \<open>simp_all add: DataViewer_enter_map_def DataViewer_enter_array_def\<close>)
qed

lemma view_read: "view (snd (read sz d)) = view d"
  by (auto simp add: read_def Let_def split: prod.splits option.splits sum.splits)

lemma view_seek: "view (snd (seek p d)) = view d"
  by (auto simp add: seek_def split: sum.splits)

lemma unique_names_view_call:
  "unique_names (view d) \<Longrightarrow> unique_names (view (snd (view_call c d)))"
  using unique_names_call[of "view d" c]
  by (auto simp add: view_call_def split: prod.splits)

lemma unique_names_scalar:
  "unique_names (view d) \<Longrightarrow> unique_names (view (snd (scalar name sz desc d)))"
  using view_read[of "Some sz" d] unique_names_view_call
  by (auto simp add: scalar_def vset_def split: prod.splits sum.splits option.splits)
     (metis snd_conv)+

lemma unique_names_try_finally:
  assumes "\<And>r d'. body d = Some (r, d') \<Longrightarrow> unique_names (view d')"
    and "\<And>d1. unique_names (view d1) \<Longrightarrow> unique_names (view (snd (cleanup d1)))"
    and "try_finally body cleanup d = Some (r, d')"
  shows "unique_names (view d')"
proof (cases "body d")
  case None
  with assms(3) show ?thesis by (simp add: try_finally_def)
next
  case (Some a)
  obtain r1 d1 where a: "a = (r1, d1)" by (cases a)
  with Some assms(1) have "unique_names (view d1)" by simp
  from assms(2)[OF this] assms(3) Some a show ?thesis
    by (auto simp add: try_finally_def split: prod.splits option.splits)
qed

lemma unique_names_pop:
  "unique_names (view d1) \<Longrightarrow> unique_names (view (snd (stream_stack_pop d1)))"
  by (simp add: stream_stack_pop_def)

lemma and_then_Some:
  "and_then m k = Some (r, d') \<Longrightarrow>
   (\<exists>d1. m = Some (Normal, d1) \<and> k d1 = Some (r, d')) \<or> m = Some (r, d')"
  by (cases "(m, k)" rule: and_then.cases) auto

lemma except_Some:
  "except m h k = Some (r, d') \<Longrightarrow>
   (\<exists>e d1. m = Some (Raised e, d1) \<and> h e \<and> k d1 = Some (r, d')) \<or> m = Some (r, d')"
  by (cases "(m, h, k)" rule: except.cases) (auto split: if_splits)

lemma returned_Some: "returned m = Some (r, d') \<Longrightarrow> \<exists>r1. m = Some (r1, d')"
  by (cases m rule: returned.cases) auto

lemma unique_names_exec:
  "unique_names (view d) \<Longrightarrow> exec p d = Some (r, d') \<Longrightarrow> unique_names (view d')"
proof (induction p arbitrary: d r d')
  case (Seq p q)
  from Seq.prems(2) have "and_then (exec p d) (exec q) = Some (r, d')" by simp
  from and_then_Some[OF this] show ?case
  proof
    assume "\<exists>d1. exec p d = Some (Normal, d1) \<and> exec q d1 = Some (r, d')"
    then obtain d1 where 1: "exec p d = Some (Normal, d1)" and 2: "exec q d1 = Some (r, d')"
      by blast
    from Seq.IH(2)[OF Seq.IH(1)[OF Seq.prems(1) 1] 2] show ?thesis .
  next
    assume "exec p d = Some (r, d')"
    from Seq.IH(1)[OF Seq.prems(1) this] show ?thesis .
  qed
next
  case (Read sz k)
  obtain x d1 where rd: "read sz d = (x, d1)" by (cases "read sz d")
  with Read.prems(1) view_read[of sz d] have u: "unique_names (view d1)" by simp
  show ?case
  proof (cases x)
    case (Inl e)
    with rd Read.prems(2) u show ?thesis by simp
  next
    case (Inr data)
    with rd Read.prems(2) have "exec (k data) d1 = Some (r, d')" by simp
    with Read.IH[OF rangeI u] show ?thesis .
  qed
next
  case (Scalar name desc k)
  obtain x d1 where rd: "scalar name (int (calcsize desc)) desc d = (x, d1)"
    by (cases "scalar name (int (calcsize desc)) desc d")
  with Scalar.prems(1) unique_names_scalar[of d name "int (calcsize desc)" desc]
  have u: "unique_names (view d1)" by simp
  show ?case
  proof (cases x)
    case (Inl e)
    with rd Scalar.prems(2) u show ?thesis by simp
  next
    case (Inr y)
    with rd Scalar.prems(2) have "exec (k y) d1 = Some (r, d')" by simp
    with Scalar.IH[OF rangeI u] show ?thesis .
  qed
next
  case (GetPos k)
  from GetPos.IH[OF rangeI GetPos.prems(1)] GetPos.prems(2) show ?case by simp
next
  case (Seek p)
  obtain e d1 where s: "seek p d = (e, d1)" by (cases "seek p d")
  with view_seek[of p d] Seek show ?case by (cases e) auto
next
  case (Substream sz p)
  obtain x d1 where rd: "read (Some sz) d = (x, d1)" by (cases "read (Some sz) d")
  with Substream.prems(1) view_read[of "Some sz" d] have u: "unique_names (view d1)" by simp
  show ?case
  proof (cases x)
    case (Inl e)
    with rd Substream.prems(2) u show ?thesis by (simp add: substream_def)
  next
    case (Inr data)
    have "unique_names (view (substream_enter data d1))"
      using u by (simp add: substream_enter_def)
    from unique_names_try_finally[where body="exec p" and cleanup=stream_stack_pop,
        OF Substream.IH[OF this] unique_names_pop]
      rd Inr Substream.prems(2) show ?thesis by (simp add: substream_def)
  qed
next
  case (Endian b p)
  have "unique_names (view (d\<lparr>big := b\<rparr>))" using Endian.prems(1) by simp
  from unique_names_try_finally[where body="exec p" and d="d\<lparr>big := b\<rparr>"
        and cleanup="\<lambda>d1. (None, d1\<lparr>big := big d\<rparr>)", OF Endian.IH[OF this]]
    Endian.prems(2) show ?case by (simp add: endian_def Let_def)
next
  case (VSet name x)
  obtain e d1 where s: "view_call (Set name x) d = (e, d1)" by (cases "view_call (Set name x) d")
  with unique_names_view_call[of d "Set name x"] VSet show ?case
    by (cases e) (auto simp add: vset_def)
next
  case (VBlob name data)
  obtain e d1 where s: "view_call (Blob name data) d = (e, d1)"
    by (cases "view_call (Blob name data) d")
  with unique_names_view_call[of d "Blob name data"] VBlob show ?case
    by (cases e) auto
next
  case (VMap name p)
  obtain e d1 where en: "view_call (EnterMap name) d = (e, d1)"
    by (cases "view_call (EnterMap name) d")
  with VMap.prems(1) unique_names_view_call[of d "EnterMap name"]
  have u: "unique_names (view d1)" by simp
  show ?case
  proof (cases e)
    case None
    from unique_names_try_finally[where body="exec p" and cleanup="view_call Exit",
        OF VMap.IH[OF u] unique_names_view_call]
      en None VMap.prems(2) show ?thesis by (simp add: Viewer_map_def)
  next
    case (Some err)
    with en VMap.prems(2) u show ?thesis by (simp add: Viewer_map_def)
  qed
next
  case (VArray name p)
  obtain e d1 where en: "view_call (EnterArray name) d = (e, d1)"
    by (cases "view_call (EnterArray name) d")
  with VArray.prems(1) unique_names_view_call[of d "EnterArray name"]
  have u: "unique_names (view d1)" by simp
  show ?case
  proof (cases e)
    case None
    from unique_names_try_finally[where body="exec p" and cleanup="view_call Exit",
        OF VArray.IH[OF u] unique_names_view_call]
      en None VArray.prems(2) show ?thesis by (simp add: Viewer_array_def)
  next
    case (Some err)
    with en VArray.prems(2) u show ?thesis by (simp add: Viewer_array_def)
  qed
next
  case (Try p h q)
  from Try.prems(2) have "except (exec p d) h (exec q) = Some (r, d')" by simp
  from except_Some[OF this] show ?case
  proof
    assume "\<exists>e d1. exec p d = Some (Raised e, d1) \<and> h e \<and> exec q d1 = Some (r, d')"
    then obtain e d1 where 1: "exec p d = Some (Raised e, d1)" and 2: "exec q d1 = Some (r, d')"
      by blast
    from Try.IH(2)[OF Try.IH(1)[OF Try.prems(1) 1] 2] show ?thesis .
  next
    assume "exec p d = Some (r, d')"
    from Try.IH(1)[OF Try.prems(1) this] show ?thesis .
  qed
next
  case (Call p)
  from Call.prems(2) have "returned (exec p d) = Some (r, d')" by simp
  from returned_Some[OF this] obtain r1 where "exec p d = Some (r1, d')" by blast
  from Call.IH[OF Call.prems(1) this] show ?case .
qed simp_all

lemma view_call_Set_Data:
  "view d = Data v \<Longrightarrow>
   view_call (Set name x) d =
     (fst (DataViewer_set name x v),
      d\<lparr>view := Data (snd (DataViewer_set name x v)),
        calls := calls d @ [(Set name x, fst (DataViewer_set name x v) = None)]\<rparr>)"
  by (cases "DataViewer_set name x v") (simp add: view_call_def)

lemma set_all_List:
  "view d = Data v \<Longrightarrow> store v (cur v) = List xs \<Longrightarrow>
   exec (set_all kxs) d = Some (Normal, d') \<Longrightarrow>
   map fst kxs = map (\<lambda>i. KInt (int i)) [length xs ..< length xs + length kxs] \<and>
   (\<exists>v'. view d' = Data v' \<and> store v' (cur v') = List (xs @ map snd kxs))"
proof (induction kxs arbitrary: d v xs)
  case Nil
  then show ?case by simp
next
  case (Cons kx rest)
  let ?s = "DataViewer_set (fst kx) (snd kx) v"
  from Cons.prems have k: "fst kx = KInt (int (length xs))"
    by (auto simp add: vset_def view_call_Set_Data DataViewer_set_List split: if_splits)
  let ?v1 = "v\<lparr>store := (store v)(cur v := List (xs @ [snd kx]))\<rparr>"
  let ?d1 = "d\<lparr>view := Data ?v1, calls := calls d @ [(Set (fst kx) (snd kx), True)]\<rparr>"
  from Cons.prems k have e: "exec (set_all rest) ?d1 = Some (Normal, d')"
    by (simp add: vset_def view_call_Set_Data DataViewer_set_List)
  have "view ?d1 = Data ?v1" "store ?v1 (cur ?v1) = List (xs @ [snd kx])" by simp_all
  from Cons.IH[OF this e]
  have 1: "map fst rest = map (\<lambda>i. KInt (int i)) [Suc (length xs) ..< Suc (length xs) + length rest]"
    and 2: "\<exists>v'. view d' = Data v' \<and> store v' (cur v') = List (xs @ snd kx # map snd rest)"
    by simp_all
  have 3: "[length xs ..< length xs + length (kx # rest)]
             = length xs # [Suc (length xs) ..< Suc (length xs) + length rest]"
    using upt_conv_Cons[of "length xs" "length xs + Suc (length rest)"] by simp
  have "map fst (kx # rest) = map (\<lambda>i. KInt (int i)) [length xs ..< length xs + length (kx # rest)]"
    unfolding 3 using 1 k by simp
  with 2 show ?case by simp
qed

lemma view_call_calls:
  "view_call c d = (e, d') \<Longrightarrow> calls d' = calls d @ [(c, e = None)]"
  by (auto simp add: view_call_def split: prod.splits)

lemma hexdump_lines_calls:
  "hexdump_lines ls d = (None, d') \<Longrightarrow>
   calls d' = calls d @ map (\<lambda>l. (line_call l, True)) ls"
proof (induction ls arbitrary: d)
  case Nil
  then show ?case by simp
next
  case (Cons l ls)
  obtain e d1 where c: "view_call (line_call l) d = (e, d1)"
    by (cases "view_call (line_call l) d")
  with Cons.prems have e: "e = None" and r: "hexdump_lines ls d1 = (None, d')"
    by (cases e; simp)+
  from Cons.IH[OF r] view_call_calls[OF c] e show ?case by simp
qed

lemma view_call_plain:
  "is_plain (view d) \<Longrightarrow>
   fst (view_call c d) = None \<and> is_plain (view (snd (view_call c d)))"
  using Viewer_call_plain[of "view d" c] by (auto simp add: view_call_def split: prod.splits)

lemma hexdump_lines_plain:
  "is_plain (view d) \<Longrightarrow>
   fst (hexdump_lines ls d) = None \<and> is_plain (view (snd (hexdump_lines ls d)))"
proof (induction ls arbitrary: d)
  case Nil
  then show ?case by simp
next
  case (Cons l ls)
  obtain e d1 where c: "view_call (line_call l) d = (e, d1)"
    by (cases "view_call (line_call l) d")
  with view_call_plain[OF Cons.prems, of "line_call l"]
  have "e = None" "is_plain (view d1)" by simp_all
  with Cons.IH[of d1] c show ?case by simp
qed

lemma in_step_read: "in_step d \<Longrightarrow> fst (read sz d) \<noteq> Inl EOFError \<Longrightarrow> in_step (snd (read sz d))"
  by (auto simp add: in_step_def read_def stream_read_def Let_def split: option.splits if_splits)

lemma read_error: "read sz d = (Inl e, d') \<Longrightarrow> e = EOFError \<or> e = ValueError"
  by (auto simp add: read_def stream_read_def Let_def
        split: prod.splits option.splits sum.splits if_splits)

lemma in_step_view_call: "in_step (snd (view_call c d)) = in_step d"
  by (auto simp add: in_step_def view_call_def split: prod.splits)

lemma in_step_scalar:
  assumes "in_step d" "fst (scalar name n desc d) \<noteq> Inl EOFError"
  shows "in_step (snd (scalar name n desc d))"
proof -
  obtain x d1 where r: "read (Some n) d = (x, d1)" by (cases "read (Some n) d")
  with assms(2) have "x \<noteq> Inl EOFError" by (auto simp add: scalar_def)
  with in_step_read[OF assms(1), of "Some n"] r have 1: "in_step d1" by simp
  then show ?thesis
    using r in_step_view_call
    by (auto simp add: scalar_def vset_def split: sum.splits prod.splits option.splits)
       (metis snd_conv)+
qed

lemma unpack_zero: "unpack b Fmt_I [0, 0, 0, 0] = Inr (VInt 0)"
  by (simp add: unpack_def)

lemma u4_short:
  "length (remaining (stream d)) < 4 \<Longrightarrow>
   u4 name d =
     (Inl EOFError,
      d\<lparr>stream := (stream d)\<lparr>tell := tell (stream d) + length (remaining (stream d))\<rparr>\<rparr>)"
  by (simp add: u4_def scalar_def read_Some_short)

lemma u4_zero:
  assumes "take 4 (remaining (stream d)) = [0, 0, 0, 0]"
  shows "u4 None d =
     (Inr (VInt 0), d\<lparr>stream := (stream d)\<lparr>tell := tell (stream d) + 4\<rparr>, pos := pos d + 4\<rparr>)"
proof -
  have "length (take 4 (remaining (stream d))) = 4" using assms by simp
  then have "4 \<le> int (length (remaining (stream d)))" by simp
  from read_Some_enough[OF _ this] assms show ?thesis
    by (simp add: u4_def scalar_def unpack_zero)
qed

lemma atoms_short:
  "length (remaining (stream d)) < 4 \<Longrightarrow>
   atoms il layout (Suc (Suc n)) d =
     Some (Normal,
       d\<lparr>stream := (stream d)\<lparr>tell := tell (stream d) + length (remaining (stream d))\<rparr>\<rparr>)"
  by (simp add: u4_short)

lemma atoms_sentinel:
  "take 4 (remaining (stream d)) = [0, 0, 0, 0] \<Longrightarrow>
   atoms il layout (Suc (Suc n)) d =
     Some (Normal, d\<lparr>stream := (stream d)\<lparr>tell := tell (stream d) + 4\<rparr>, pos := pos d + 4\<rparr>)"
  by (simp add: u4_zero)

subsection \<open>More fuel changes no result\<close>

lemma try_finally_mono:
  assumes "\<And>x. body d = Some x \<Longrightarrow> body' d = Some x"
    and "try_finally body cleanup d = Some r"
  shows "try_finally body' cleanup d = Some r"
proof (cases "body d")
  case None
  with assms(2) show ?thesis by (simp add: try_finally_def)
next
  case (Some x)
  with assms(1) have "body' d = Some x" by simp
  with Some assms(2) show ?thesis by (simp add: try_finally_def)
qed

lemma substream_mono:
  assumes "\<And>d1 x. body d1 = Some x \<Longrightarrow> body' d1 = Some x"
    and "substream sz body d = Some r"
  shows "substream sz body' d = Some r"
proof (cases "read (Some sz) d")
  case (Pair x d1)
  show ?thesis
  proof (cases x)
    case (Inl e)
    with Pair assms(2) show ?thesis by (simp add: substream_def)
  next
    case (Inr data)
    with Pair assms(2)
    have "try_finally body stream_stack_pop (substream_enter data d1) = Some r"
      by (simp add: substream_def)
    from try_finally_mono[OF assms(1) this] Pair Inr show ?thesis
      by (simp add: substream_def)
  qed
qed

lemma Viewer_map_mono:
  assumes "\<And>d1 x. body d1 = Some x \<Longrightarrow> body' d1 = Some x"
    and "Viewer_map name body d = Some r"
  shows "Viewer_map name body' d = Some r"
proof (cases "view_call (EnterMap name) d")
  case (Pair e d1)
  show ?thesis
  proof (cases e)
    case None
    with Pair assms(2) have "try_finally body (view_call Exit) d1 = Some r"
      by (simp add: Viewer_map_def)
    from try_finally_mono[OF assms(1) this] Pair None show ?thesis
      by (simp add: Viewer_map_def)
  next
    case (Some err)
    with Pair assms(2) show ?thesis by (simp add: Viewer_map_def)
  qed
qed

lemma and_then_mono:
  assumes "\<And>d1 x. k d1 = Some x \<Longrightarrow> k' d1 = Some x"
    and "and_then m k = Some r"
  shows "and_then m k' = Some r"
  using assms by (cases "(m, k)" rule: and_then.cases) auto

lemma and_then_arg:
  assumes "\<And>x. m = Some x \<Longrightarrow> m' = Some x"
    and "and_then m k = Some r"
  shows "and_then m' k = Some r"
proof (cases m)
  case None
  with assms(2) show ?thesis by simp
next
  case (Some x)
  with assms show ?thesis by simp
qed

lemma returned_arg:
  "(\<And>x. m = Some x \<Longrightarrow> m' = Some x) \<Longrightarrow> returned m = Some r \<Longrightarrow> returned m' = Some r"
  by (cases m) auto

lemma atom_body_mono:
  assumes none: "meth = None \<Longrightarrow> meth' = None"
    and some: "\<And>f. meth = Some f \<Longrightarrow>
             \<exists>f'. meth' = Some f' \<and> (\<forall>d1 x. f d1 = Some x \<longrightarrow> f' d1 = Some x)"
    and run: "atom_body il sz meth d = Some r"
  shows "atom_body il sz meth' d = Some r"
proof -
  have call: "(case meth of None \<Rightarrow> Some (Normal, d1) | Some f \<Rightarrow> returned (f d1)) = Some x
    \<Longrightarrow> (case meth' of None \<Rightarrow> Some (Normal, d1) | Some f \<Rightarrow> returned (f d1)) = Some x"
    for d1 x
  proof (cases meth)
    case None
    assume "(case meth of None \<Rightarrow> Some (Normal, d1) | Some f \<Rightarrow> returned (f d1)) = Some x"
    with None none show ?thesis by simp
  next
    case (Some f)
    assume a: "(case meth of None \<Rightarrow> Some (Normal, d1) | Some f \<Rightarrow> returned (f d1)) = Some x"
    from some[OF Some] obtain f' where f': "meth' = Some f'"
      and ext: "\<And>y. f d1 = Some y \<Longrightarrow> f' d1 = Some y" by blast
    from a Some have "returned (f d1) = Some x" by simp
    from returned_arg[OF ext this] f' show ?thesis by simp
  qed
  show ?thesis
    using run unfolding atom_body_def
    by (rule and_then_mono[rotated]) (erule and_then_arg[rotated], erule call)
qed

lemma fuel_Suc:
  "(atoms il layout n d = Some r \<longrightarrow> atoms il layout (Suc n) d = Some r) \<and>
   (atom il layout n d = Some q \<longrightarrow> atom il layout (Suc n) d = Some q) \<and>
   (atom_data il layout n d = Some r \<longrightarrow> atom_data il layout (Suc n) d = Some r)"
proof (induction n arbitrary: d r q)
  case 0
  show ?case by simp
next
  case (Suc n)
  have IHs: "\<And>d x. atoms il layout n d = Some x \<Longrightarrow> atoms il layout (Suc n) d = Some x"
    and IHa: "\<And>d x. atom il layout n d = Some x \<Longrightarrow> atom il layout (Suc n) d = Some x"
    and IHd: "\<And>d x. atom_data il layout n d = Some x \<Longrightarrow> atom_data il layout (Suc n) d = Some x"
    using Suc.IH by blast+
  have 1: "atoms il layout (Suc (Suc n)) d = Some r" if a: "atoms il layout (Suc n) d = Some r"
  proof (cases "atom il layout n d")
    case None
    with a show ?thesis by simp
  next
    case (Some x)
    from IHa[OF Some] Some a IHs show ?thesis
      by (auto split: prod.splits sum.splits bool.splits)
  qed
  have 3: "atom_data il layout (Suc (Suc n)) d = Some r" if a: "atom_data il layout (Suc n) d = Some r"
  proof (cases "atom il layout n d")
    case None
    with a show ?thesis by simp
  next
    case (Some x)
    from IHa[OF Some] Some a show ?thesis
      by (auto split: prod.splits sum.splits)
  qed
  have 2: "atom il layout (Suc (Suc n)) d = Some q" if a: "atom il layout (Suc n) d = Some q"
  proof (cases "u4 None d")
    case (Pair x d1)
    show ?thesis
    proof (cases x)
      case (Inl e)
      with Pair a show ?thesis by simp
    next
      case (Inr sz)
      show ?thesis
      proof (cases "sz = VInt 0")
        case True
        with Pair Inr a show ?thesis by simp
      next
        case False
        obtain y d2 where s: "s4 d1 = (y, d2)" by (cases "s4 d1")
        show ?thesis
        proof (cases y)
          case (Inl e)
          with Pair Inr False s a show ?thesis by simp
        next
          case (Inr atype)
          let ?m = "\<lambda>k. if atype \<in> set container_atoms
                                  then Some (\<lambda>d3. atoms il layout k d3)
                                else if atype = ''dinf''
                                  then Some (\<lambda>d3. atom_data il layout k d3)
                                else if atype \<in> set layout_atoms
                                  then Some (exec (layout atype))
                                else None"
          let ?b = "\<lambda>k. substream (int_of sz - 8)
                      (Viewer_map (KStr (quoted atype)) (atom_body il sz (?m k))) d2"
          have none: "?m n = None \<Longrightarrow> ?m (Suc n) = None"
            by (simp split: if_splits)
          have some: "\<exists>f'. ?m (Suc n) = Some f' \<and> (\<forall>d1 x. f d1 = Some x \<longrightarrow> f' d1 = Some x)"
            if "?m n = Some f" for f
          proof (cases "atype \<in> set container_atoms")
            case True
            with that have "f = (\<lambda>d3. atoms il layout n d3)" by auto
            with True IHs show ?thesis by (simp del: atoms.simps)
          next
            case nc: False
            show ?thesis
            proof (cases "atype = ''dinf''")
              case True
              with nc that have "f = (\<lambda>d3. atom_data il layout n d3)" by auto
              with nc True IHd show ?thesis by (simp del: atom_data.simps)
            next
              case False
              with nc that show ?thesis by (auto split: if_splits)
            qed
          qed
          have ext: "?b (Suc n) = Some z" if "?b n = Some z" for z
            using that
            apply (rule substream_mono[rotated])
            apply (erule Viewer_map_mono[rotated])
            apply (erule atom_body_mono[rotated 2])
             apply (erule none)
            apply (erule some)
            done
          show ?thesis
          proof (cases "?b n")
            case None
            with Pair \<open>x = Inr sz\<close> False s Inr a show ?thesis by simp
          next
            case (Some z)
            from ext[OF Some] Some Pair \<open>x = Inr sz\<close> False s Inr a show ?thesis
              by simp
          qed
        qed
      qed
    qed
  qed
  from 1 2 3 show ?case by blast
qed

lemma fuel_add:
  "atoms il layout n d = Some r \<Longrightarrow> atoms il layout (n + k) d = Some r"
proof (induction k)
  case 0
  then show ?case by simp
next
  case (Suc k)
  then have "atoms il layout (n + k) d = Some r" by simp
  with fuel_Suc[of il layout "n + k" d r] have "atoms il layout (Suc (n + k)) d = Some r"
    by blast
  then show ?case by (simp del: atoms.simps)
qed

lemma fuel_le:
  "n \<le> m \<Longrightarrow> atoms il layout n d = Some r \<Longrightarrow> atoms il layout m d = Some r"
  using fuel_add[of il layout n d r "m - n"] by simp

subsection \<open>The record loop ends on every input\<close>

lemma same_frame_hexdump_lines: "same_frame d (snd (hexdump_lines ls d))"
proof (induction ls arbitrary: d)
  case Nil
  show ?case by (simp add: same_frame_refl)
next
  case (Cons l ls)
  obtain e d1 where c: "view_call (line_call l) d = (e, d1)"
    by (cases "view_call (line_call l) d")
  have "\<not> is_enter (line_call l)" "line_call l \<noteq> Exit"
    by (simp_all add: line_call_def split: prod.splits)
  from same_frame_leaf[OF this, of d] c have f: "same_frame d d1" by simp
  show ?case
  proof (cases e)
    case None
    with c f Cons.IH[of d1] show ?thesis by (auto intro: same_frame_trans)
  next
    case (Some err)
    with c f show ?thesis by simp
  qed
qed

lemma same_frame_hexdump: "same_frame d (snd (hexdump il data limit d))"
proof -
  obtain e d1 where h: "hexdump_lines (il (take limit data)) d = (e, d1)"
    by (cases "hexdump_lines (il (take limit data)) d")
  with same_frame_hexdump_lines[of d "il (take limit data)"] have f: "same_frame d d1" by simp
  have "same_frame d1 (snd (putv k x d1))" for k x
    unfolding putv_def by (rule same_frame_leaf) simp_all
  with f have "same_frame d (snd (putv k x d1))" for k x by (rule same_frame_trans)
  with h f show ?thesis by (cases e) (simp_all add: hexdump_def)
qed

lemma stream_view_call: "stream (snd (view_call c d)) = stream d"
  by (simp add: view_call_def split: prod.splits)

lemma stream_hexdump_lines: "stream (snd (hexdump_lines ls d)) = stream d"
proof (induction ls arbitrary: d)
  case Nil
  show ?case by simp
next
  case (Cons l ls)
  obtain e d1 where c: "view_call (line_call l) d = (e, d1)"
    by (cases "view_call (line_call l) d")
  with stream_view_call[of "line_call l" d] Cons.IH[of d1] show ?case by (cases e) simp_all
qed

lemma and_then_framed_at:
  assumes "m = Some (r, d1)" "same_frame d d1"
    and "r = Normal \<Longrightarrow> \<exists>r' d'. k d1 = Some (r', d') \<and> same_frame d1 d'"
  shows "\<exists>r' d'. and_then m k = Some (r', d') \<and> same_frame d d'"
proof (cases r)
  case Normal
  with assms show ?thesis by (auto intro: same_frame_trans)
qed (use assms in auto)

lemma returned_framed_at:
  "m = Some (r, d1) \<Longrightarrow> \<exists>r'. returned m = Some (r', d1)"
  by (cases r) auto

lemma read_rest_framed:
  "\<exists>r d'. (case read None d of
              (Inl e, d3) \<Rightarrow> Some (Raised e, d3)
            | (Inr rest, d3) \<Rightarrow>
                if rest \<noteq> [] then stmt (hexdump il rest 256 d3) else Some (Normal, d3))
           = Some (r, d') \<and> same_frame d d'"
proof -
  obtain x d3 where r: "read None d = (x, d3)" by (cases "read None d")
  with same_frame_read[of d None] have f: "same_frame d d3" by simp
  show ?thesis
  proof (cases x)
    case (Inl e)
    with r f show ?thesis by simp
  next
    case (Inr rest)
    from same_frame_trans[OF f same_frame_hexdump[of d3 il rest 256]]
    have "\<exists>r d'. stmt (hexdump il rest 256 d3) = Some (r, d') \<and> same_frame d d'"
      by (rule stmt_framed)
    with r f Inr show ?thesis by simp
  qed
qed

lemma atom_body_total:
  assumes "\<And>f. meth = Some f \<Longrightarrow>
             \<exists>r d2. f (snd (putv (KStr ''_size'') sz d)) = Some (r, d2) \<and>
                    same_frame (snd (putv (KStr ''_size'') sz d)) d2"
  shows "\<exists>r d'. atom_body il sz meth d = Some (r, d') \<and> same_frame d d'"
proof -
  obtain e d1 where p: "putv (KStr ''_size'') sz d = (e, d1)"
    by (cases "putv (KStr ''_size'') sz d")
  have "same_frame d (snd (putv (KStr ''_size'') sz d))"
    unfolding putv_def by (rule same_frame_leaf) simp_all
  with p have f1: "same_frame d d1" by simp
  from p stream_view_call[of "Set (KStr ''_size'') sz" d] have s1: "stream d1 = stream d"
    by (simp add: putv_def)
  obtain r1 where st: "stmt (putv (KStr ''_size'') sz d) = Some (r1, d1)"
    using p by (cases e) simp_all
  have call: "\<exists>r2 d2. (case meth of None \<Rightarrow> Some (Normal, d1) | Some f \<Rightarrow> returned (f d1))
                 = Some (r2, d2) \<and> same_frame d1 d2"
  proof (cases meth)
    case None
    then show ?thesis by (simp add: same_frame_refl)
  next
    case (Some f)
    from assms[OF Some] p obtain r d2 where "f d1 = Some (r, d2)" "same_frame d1 d2" by auto
    with returned_framed_at[of "f d1" r d2] Some show ?thesis by auto
  qed
  then obtain r2 d2 where c: "(case meth of None \<Rightarrow> Some (Normal, d1)
                 | Some f \<Rightarrow> returned (f d1)) = Some (r2, d2)" and f2: "same_frame d1 d2"
    by blast
  let ?k = "\<lambda>d1. and_then (case meth of None \<Rightarrow> Some (Normal, d1) | Some f \<Rightarrow> returned (f d1))
          (\<lambda>d2. case read None d2 of
                   (Inl e, d3) \<Rightarrow> Some (Raised e, d3)
                 | (Inr rest, d3) \<Rightarrow>
                     if rest \<noteq> [] then stmt (hexdump il rest 256 d3)
                     else Some (Normal, d3))"
  have inner: "\<exists>r' d'. ?k d1 = Some (r', d') \<and> same_frame d1 d'"
    using c f2 by (rule and_then_framed_at) (rule read_rest_framed)
  have "\<exists>r' d'. and_then (stmt (putv (KStr ''_size'') sz d)) ?k = Some (r', d') \<and> same_frame d d'"
    using st f1 inner by (rule and_then_framed_at[where k="?k"])
  then show ?thesis unfolding atom_body_def .
qed

lemma Viewer_map_total_at:
  assumes "fst (view_call (EnterMap name) d) = None \<Longrightarrow>
             \<exists>r d'. body (snd (view_call (EnterMap name) d)) = Some (r, d') \<and>
                    same_frame (snd (view_call (EnterMap name) d)) d'"
  shows "\<exists>r d'. Viewer_map name body d = Some (r, d') \<and> same_frame d d'"
proof (cases "view_call (EnterMap name) d")
  case (Pair e d1)
  show ?thesis
  proof (cases e)
    case None
    with Pair assms have "\<exists>r d'. body d1 = Some (r, d') \<and> same_frame d1 d'" by simp
    from scoped_sink[where c="EnterMap name" and d=d and ?d1.0=d1 and body=body, OF _ this]
      Pair None show ?thesis by (simp add: Viewer_map_def)
  next
    case (Some err)
    with Pair failed_enter[where c="EnterMap name" and d=d and e=err and ?d1.0=d1]
    show ?thesis by (simp add: Viewer_map_def)
  qed
qed

lemma read_shrinks:
  "length (remaining (stream (snd (read sz d)))) \<le> length (remaining (stream d))"
  by (auto simp add: read_def stream_read_def remaining_def Let_def split: option.splits)

lemma read_data_length:
  "fst (read sz d) = Inr data \<Longrightarrow> length data \<le> length (remaining (stream d))"
  by (auto simp add: read_def stream_read_def Let_def split: option.splits if_splits)

lemma substream_total_at:
  assumes "\<And>data. fst (read (Some sz) d) = Inr data \<Longrightarrow>
             \<exists>r d2. body (substream_enter data (snd (read (Some sz) d))) = Some (r, d2) \<and>
                    same_frame (substream_enter data (snd (read (Some sz) d))) d2"
  shows "\<exists>r d'. substream sz body d = Some (r, d') \<and> same_frame d d' \<and>
           length (remaining (stream d')) \<le> length (remaining (stream d))"
proof (cases "read (Some sz) d")
  case (Pair x d1)
  have f1: "same_frame d d1" using same_frame_read[of d "Some sz"] Pair by simp
  have l1: "length (remaining (stream d1)) \<le> length (remaining (stream d))"
    using read_shrinks[of "Some sz" d] Pair by simp
  show ?thesis
  proof (cases x)
    case (Inl e)
    with Pair f1 l1 show ?thesis by (simp add: substream_def)
  next
    case (Inr data)
    with Pair assms[of data] obtain r d2
      where b: "body (substream_enter data d1) = Some (r, d2)"
        and f: "same_frame (substream_enter data d1) d2" by auto
    from b substream_enter_exit[OF f]
    have "try_finally body stream_stack_pop (substream_enter data d1) =
            Some (r, d2\<lparr>stream := stream d1, pos := pos d1, stream_stack := stream_stack d1\<rparr>)"
      by (simp add: try_finally_def)
    with same_frame_trans[OF f1 same_frame_restore[OF f]] l1 Pair Inr show ?thesis
      by (simp add: substream_def)
  qed
qed

lemma u4_result:
  assumes "u4 None d = (x, d1)"
  shows "same_frame d d1 \<and>
         (x = Inl EOFError \<or>
          (\<exists>i. x = Inr (VInt i)) \<and> length (remaining (stream d1)) < length (remaining (stream d)))"
proof (cases "length (remaining (stream d)) < 4")
  case True
  from u4_short[OF True, of None] assms same_frame_scalar[of d None 4 Fmt_I] show ?thesis
    by (auto simp add: u4_def)
next
  case False
  then have le: "4 \<le> int (length (remaining (stream d)))" by simp
  have "\<exists>i. unpack b Fmt_I (take 4 bs) = Inr (VInt i)" if "4 \<le> length bs" for b bs
    using that by (simp add: unpack_def Let_def)
  then obtain i where "unpack (big d) Fmt_I (take 4 (remaining (stream d))) = Inr (VInt i)"
    using False by (metis not_less)
  with read_Some_enough[OF _ le]
  have "u4 None d =
      (Inr (VInt i), d\<lparr>stream := (stream d)\<lparr>tell := tell (stream d) + 4\<rparr>, pos := pos d + 4\<rparr>)"
    by (simp add: u4_def scalar_def)
  with assms have x: "x = Inr (VInt i)"
    and d1: "d1 = d\<lparr>stream := (stream d)\<lparr>tell := tell (stream d) + 4\<rparr>, pos := pos d + 4\<rparr>"
    by simp_all
  from d1 False have "length (remaining (stream d1)) < length (remaining (stream d))"
    by (simp add: remaining_def)
  with x assms same_frame_scalar[of d None 4 Fmt_I] show ?thesis
    by (simp add: u4_def)
qed

lemma s4_result:
  assumes "s4 d = (y, d1)"
  shows "same_frame d d1 \<and> length (remaining (stream d1)) \<le> length (remaining (stream d))"
  using assms same_frame_read[of d "Some 4"] read_shrinks[of "Some 4" d]
  by (auto simp add: s4_def split: prod.splits sum.splits)

lemma fuel_le_atom:
  "n \<le> m \<Longrightarrow> atom il layout n d = Some q \<Longrightarrow> atom il layout m d = Some q"
proof (induction "m - n" arbitrary: m)
  case 0
  then show ?case by simp
next
  case (Suc k)
  then obtain m' where m: "m = Suc m'" "n \<le> m'" "k = m' - n" by (cases m) auto
  from Suc.hyps(1)[OF m(3) m(2) Suc.prems(2)] fuel_Suc[of il layout m' d _ q] m(1)
  show ?case by blast
qed

lemma record_loop_total:
  "(\<exists>n r d'. atoms il layout n d = Some (r, d') \<and> same_frame d d') \<and>
   (\<exists>n x d'. atom il layout n d = Some (x, d') \<and> same_frame d d' \<and>
        (x = Inr True \<longrightarrow> length (remaining (stream d')) < length (remaining (stream d)))) \<and>
   (\<exists>n r d'. atom_data il layout n d = Some (r, d') \<and> same_frame d d')"
proof (induction "length (remaining (stream d))" arbitrary: d rule: less_induct)
  case less
  have IHs: "\<exists>n r d''. atoms il layout n d' = Some (r, d'') \<and> same_frame d' d''"
    and IHd: "\<exists>n r d''. atom_data il layout n d' = Some (r, d'') \<and> same_frame d' d''"
    if "length (remaining (stream d')) < length (remaining (stream d))" for d'
    using less[OF that] by blast+
  have A: "\<exists>n x d'. atom il layout n d = Some (x, d') \<and> same_frame d d' \<and>
        (x = Inr True \<longrightarrow> length (remaining (stream d')) < length (remaining (stream d)))"
  proof -
    obtain x d1 where u: "u4 None d = (x, d1)" by (cases "u4 None d")
    from u4_result[OF u] have f1: "same_frame d d1"
      and xr: "x = Inl EOFError \<or>
          (\<exists>i. x = Inr (VInt i)) \<and> length (remaining (stream d1)) < length (remaining (stream d))"
      by simp_all
    show ?thesis
    proof (cases x)
      case (Inl e)
      with xr have "e = EOFError" by simp
      with u Inl have "atom il layout (Suc 0) d = Some (Inr False, d1)" by simp
      with f1 show ?thesis by blast
    next
      case xsz: (Inr sz)
      with xr have lt1: "length (remaining (stream d1)) < length (remaining (stream d))" by simp
      show ?thesis
      proof (cases "sz = VInt 0")
        case True
        with u xsz have "atom il layout (Suc 0) d = Some (Inr False, d1)" by simp
        with f1 show ?thesis by blast
      next
        case nz: False
        obtain y d2 where s: "s4 d1 = (y, d2)" by (cases "s4 d1")
        from s4_result[OF s] have f2: "same_frame d1 d2"
          and le2: "length (remaining (stream d2)) \<le> length (remaining (stream d1))" by simp_all
        show ?thesis
        proof (cases y)
          case (Inl e)
          with u xsz nz s have "atom il layout (Suc 0) d = Some (Inl e, d2)" by simp
          with same_frame_trans[OF f1 f2] show ?thesis by blast
        next
          case yt: (Inr atype)
          let ?L = "int_of sz - 8"
          let ?K = "KStr (quoted atype)"
          let ?m = "\<lambda>k. if atype \<in> set container_atoms
                                  then Some (\<lambda>d3. atoms il layout k d3)
                                else if atype = ''dinf''
                                  then Some (\<lambda>d3. atom_data il layout k d3)
                                else if atype \<in> set layout_atoms
                                  then Some (exec (layout atype))
                                else None"
          let ?E = "\<lambda>data. substream_enter data (snd (read (Some ?L) d2))"
          let ?V = "\<lambda>data. snd (view_call (EnterMap ?K) (?E data))"
          let ?HS = "\<lambda>data. snd (putv (KStr ''_size'') sz (?V data))"
          have key: "\<exists>n. \<forall>data f. fst (read (Some ?L) d2) = Inr data \<longrightarrow> ?m n = Some f \<longrightarrow>
                       (\<exists>r d'. f (?HS data) = Some (r, d') \<and> same_frame (?HS data) d')"
          proof (cases "fst (read (Some ?L) d2)")
            case (Inl e)
            then show ?thesis by simp
          next
            case (Inr data0)
            have "stream (?HS data0) = BytesIO data0"
              by (simp add: putv_def stream_view_call substream_enter_def)
            then have "length (remaining (stream (?HS data0))) = length data0"
              by (simp add: remaining_def BytesIO_def)
            with read_data_length[OF Inr] le2 lt1
            have small: "length (remaining (stream (?HS data0))) < length (remaining (stream d))"
              by simp
            from IHs[OF small] obtain na where
              na: "\<exists>r d'. atoms il layout na (?HS data0) = Some (r, d') \<and> same_frame (?HS data0) d'"
              by blast
            from IHd[OF small] obtain nd where
              nd: "\<exists>r d'. atom_data il layout nd (?HS data0) = Some (r, d') \<and> same_frame (?HS data0) d'"
              by blast
            show ?thesis
            proof (cases "atype \<in> set container_atoms")
              case True
              have h: "\<forall>data f. fst (read (Some ?L) d2) = Inr data \<longrightarrow> ?m na = Some f \<longrightarrow>
                       (\<exists>r d'. f (?HS data) = Some (r, d') \<and> same_frame (?HS data) d')"
              proof (intro allI impI)
                fix data f
                assume "fst (read (Some ?L) d2) = Inr data" and m: "?m na = Some f"
                with Inr have 1: "data = data0" by simp
                from m True have 2: "f = (\<lambda>d3. atoms il layout na d3)" by simp
                show "\<exists>r d'. f (?HS data) = Some (r, d') \<and> same_frame (?HS data) d'"
                  unfolding 1 2 by (rule na)
              qed
              show ?thesis by (rule exI[of _ na], rule h)
            next
              case nc: False
              show ?thesis
              proof (cases "atype = ''dinf''")
                case True
                have h: "\<forall>data f. fst (read (Some ?L) d2) = Inr data \<longrightarrow> ?m nd = Some f \<longrightarrow>
                       (\<exists>r d'. f (?HS data) = Some (r, d') \<and> same_frame (?HS data) d')"
                proof (intro allI impI)
                  fix data f
                  assume "fst (read (Some ?L) d2) = Inr data" and m: "?m nd = Some f"
                  with Inr have 1: "data = data0" by simp
                  from m True nc have 2: "f = (\<lambda>d3. atom_data il layout nd d3)" by simp
                  show "\<exists>r d'. f (?HS data) = Some (r, d') \<and> same_frame (?HS data) d'"
                    unfolding 1 2 by (rule nd)
                qed
                show ?thesis by (rule exI[of _ nd], rule h)
              next
                case False
                have h: "\<forall>data f. fst (read (Some ?L) d2) = Inr data \<longrightarrow> ?m 0 = Some f \<longrightarrow>
                       (\<exists>r d'. f (?HS data) = Some (r, d') \<and> same_frame (?HS data) d')"
                proof (intro allI impI)
                  fix data f
                  assume m: "?m 0 = Some f"
                  from m False nc have 2: "f = exec (layout atype)"
                    by (cases "atype \<in> set layout_atoms") simp_all
                  show "\<exists>r d'. f (?HS data) = Some (r, d') \<and> same_frame (?HS data) d'"
                    unfolding 2 by (rule exec_framed)
                qed
                show ?thesis by (rule exI[of _ 0], rule h)
              qed
            qed
          qed
          then obtain n where n: "\<And>data f. fst (read (Some ?L) d2) = Inr data \<Longrightarrow> ?m n = Some f \<Longrightarrow>
                       \<exists>r d'. f (?HS data) = Some (r, d') \<and> same_frame (?HS data) d'"
            by blast
          have "\<exists>r d'. substream ?L (Viewer_map ?K (atom_body il sz (?m n))) d2 = Some (r, d') \<and>
                  same_frame d2 d' \<and>
                  length (remaining (stream d')) \<le> length (remaining (stream d2))"
          proof (rule substream_total_at)
            fix data
            assume rd: "fst (read (Some ?L) d2) = Inr data"
            show "\<exists>r d'. Viewer_map ?K (atom_body il sz (?m n)) (?E data) = Some (r, d') \<and>
                    same_frame (?E data) d'"
            proof (rule Viewer_map_total_at)
              show "\<exists>r d'. atom_body il sz (?m n) (?V data) = Some (r, d') \<and>
                      same_frame (?V data) d'"
              proof (rule atom_body_total)
                fix f
                assume "?m n = Some f"
                from n[OF rd this]
                show "\<exists>r d'. f (?HS data) = Some (r, d') \<and> same_frame (?HS data) d'" .
              qed
            qed
          qed
          then obtain r d4
            where b: "substream ?L (Viewer_map ?K (atom_body il sz (?m n))) d2 = Some (r, d4)"
              and f4: "same_frame d2 d4"
              and le4: "length (remaining (stream d4)) \<le> length (remaining (stream d2))"
            by blast
          have "\<exists>x'. atom il layout (Suc n) d = Some (x', d4)"
            using b u xsz nz s yt by (cases r) simp_all
          then obtain x' where x': "atom il layout (Suc n) d = Some (x', d4)" by blast
          have f: "same_frame d d4" by (rule same_frame_trans[OF f1 same_frame_trans[OF f2 f4]])
          have "length (remaining (stream d4)) < length (remaining (stream d))"
            using le4 le2 lt1 by simp
          with x' f show ?thesis by blast
        qed
      qed
    qed
  qed
  then obtain n x d1 where a: "atom il layout n d = Some (x, d1)" and fa: "same_frame d d1"
    and lt: "x = Inr True \<Longrightarrow> length (remaining (stream d1)) < length (remaining (stream d))"
    by blast
  have B: "\<exists>n r d'. atom_data il layout n d = Some (r, d') \<and> same_frame d d'"
  proof (cases x)
    case (Inl e)
    with a have "atom_data il layout (Suc n) d = Some (Raised e, d1)" by simp
    with fa show ?thesis by blast
  next
    case (Inr t)
    obtain e d2 where h: "hexdump il (remaining (stream d1)) 256 (snd (read None d1)) = (e, d2)"
      by (cases "hexdump il (remaining (stream d1)) 256 (snd (read None d1))")
    from same_frame_hexdump[of "snd (read None d1)" il "remaining (stream d1)" 256] h
    have "same_frame (snd (read None d1)) d2" by simp
    with same_frame_read[of d1 None] have "same_frame d1 d2" by (rule same_frame_trans)
    with fa have f: "same_frame d d2" by (rule same_frame_trans)
    from a Inr h have "\<exists>r. atom_data il layout (Suc n) d = Some (r, d2)"
      by (cases e) (simp_all add: read_None)
    with f show ?thesis by blast
  qed
  have C: "\<exists>n r d'. atoms il layout n d = Some (r, d') \<and> same_frame d d'"
  proof (cases x)
    case (Inl e)
    with a have "atoms il layout (Suc n) d = Some (Raised e, d1)" by simp
    with fa show ?thesis by blast
  next
    case (Inr t)
    show ?thesis
    proof (cases t)
      case False
      with a Inr have "atoms il layout (Suc n) d = Some (Normal, d1)" by simp
      with fa show ?thesis by blast
    next
      case True
      with Inr lt have "length (remaining (stream d1)) < length (remaining (stream d))" by simp
      from IHs[OF this] obtain n' r d' where s: "atoms il layout n' d1 = Some (r, d')"
        and fs: "same_frame d1 d'" by blast
      from fuel_le_atom[OF max.cobounded1 a, of n'] fuel_le[OF max.cobounded2 s, of n] Inr True
      have "atoms il layout (Suc (max n n')) d = Some (r, d')" by simp
      with same_frame_trans[OF fa fs] show ?thesis by blast
    qed
  qed
  from A B C show ?case by blast
qed

lemma substream_restores:
  assumes "read (Some L) d = (Inr data, d1)"
  shows "\<exists>r d'. exec (Substream L body) d = Some (r, d') \<and> stream d' = stream d1 \<and>
           pos d' = pos d1 \<and> stream_stack d' = stream_stack d1"
proof -
  from substream_body[where body="exec body" and data=data and d=d1, OF exec_framed]
  obtain r d2 where
    "try_finally (exec body) stream_stack_pop (substream_enter data d1) =
       Some (r, d2\<lparr>stream := stream d1, pos := pos d1, stream_stack := stream_stack d1\<rparr>)"
    by blast
  with assms show ?thesis by (simp add: substream_def)
qed

lemma atoms_framed:
  assumes "atoms il layout n d = Some (r, d')"
  shows "same_frame d d'"
proof -
  from record_loop_total[of il layout d] obtain n0 r0 d0
    where a: "atoms il layout n0 d = Some (r0, d0)" and f: "same_frame d d0" by blast
  from fuel_le[OF max.cobounded1 assms, of n0] fuel_le[OF max.cobounded2 a, of n]
  have "d' = d0" by simp
  with f show ?thesis by simp
qed

lemma enter_calls_all_ok: "list_all snd cs \<Longrightarrow> enter_calls cs = entered cs"
  by (induction cs) (auto simp add: enter_calls_def entered_def)

subsection \<open>A length prefix that is not zero, a sink that rejects a scope\<close>

lemma be_nat_zero: "be_nat acc bs = 0 \<longleftrightarrow> acc = 0 \<and> (\<forall>b \<in> set bs. b = 0)"
  by (induction bs arbitrary: acc) (auto simp add: unat_eq_0)

lemma all_zero_four:
  assumes "length bs = 4"
  shows "(\<forall>b \<in> set bs. b = (0::byte)) \<longleftrightarrow> bs = [0, 0, 0, 0]"
proof -
  from assms obtain a b c e where "bs = [a, b, c, e]"
    by (auto simp add: length_Suc_conv numeral_eq_Suc)
  then show ?thesis by auto
qed

lemma u4_nonzero:
  assumes "4 \<le> length (remaining (stream d))"
    and "take 4 (remaining (stream d)) \<noteq> [0, 0, 0, 0]"
  shows "\<exists>i. i \<noteq> 0 \<and>
     u4 None d =
       (Inr (VInt i), d\<lparr>stream := (stream d)\<lparr>tell := tell (stream d) + 4\<rparr>, pos := pos d + 4\<rparr>)"
proof -
  let ?bs = "take 4 (remaining (stream d))"
  have len: "length ?bs = 4" using assms(1) by simp
  have le: "4 \<le> int (length (remaining (stream d)))" using assms(1) by simp
  have nz: "\<not> (\<forall>b \<in> set ?bs. b = 0)" using all_zero_four[OF len] assms(2) by simp
  then have nzr: "\<not> (\<forall>b \<in> set (rev ?bs). b = 0)" by simp
  have "be_nat 0 (if big d then ?bs else rev ?bs) \<noteq> 0"
    using nz nzr by (simp add: be_nat_zero)
  then have "\<exists>i. i \<noteq> 0 \<and> unpack (big d) Fmt_I ?bs = Inr (VInt i)"
    using len by (simp add: unpack_def Let_def)
  then obtain i where "i \<noteq> 0" "unpack (big d) Fmt_I ?bs = Inr (VInt i)" by blast
  with read_Some_enough[OF _ le] show ?thesis
    by (auto simp add: u4_def scalar_def)
qed

lemma atoms_truncated_type:
  assumes "4 \<le> length (remaining (stream d))" "length (remaining (stream d)) < 8"
    and "take 4 (remaining (stream d)) \<noteq> [0, 0, 0, 0]"
  shows "\<exists>d'. atoms il layout (Suc (Suc n)) d = Some (Raised EOFError, d')"
proof -
  from u4_nonzero[OF assms(1,3)] obtain i where i: "i \<noteq> 0"
    and u: "u4 None d =
       (Inr (VInt i), d\<lparr>stream := (stream d)\<lparr>tell := tell (stream d) + 4\<rparr>, pos := pos d + 4\<rparr>)"
    by blast
  let ?d1 = "d\<lparr>stream := (stream d)\<lparr>tell := tell (stream d) + 4\<rparr>, pos := pos d + 4\<rparr>"
  have "int (length (remaining (stream ?d1))) < 4"
    using assms(1,2) by (simp add: remaining_def)
  from read_Some_short[OF this] have "\<exists>d2. s4 ?d1 = (Inl EOFError, d2)"
    by (simp add: s4_def)
  then obtain d2 where "s4 ?d1 = (Inl EOFError, d2)" by blast
  with u i show ?thesis by simp
qed

lemma Viewer_map_rejected:
  assumes "fst (view_call (EnterMap name) d) = Some e"
  shows "Viewer_map name body d = Some (Raised e, snd (view_call (EnterMap name) d)) \<and>
         calls (snd (view_call (EnterMap name) d)) = calls d @ [(EnterMap name, False)]"
  using assms
  by (cases "view_call (EnterMap name) d")
     (auto simp add: Viewer_map_def view_call_def split: prod.splits)

lemma Viewer_array_rejected:
  assumes "fst (view_call (EnterArray name) d) = Some e"
  shows "Viewer_array name body d = Some (Raised e, snd (view_call (EnterArray name) d)) \<and>
         calls (snd (view_call (EnterArray name) d)) = calls d @ [(EnterArray name, False)]"
  using assms
  by (cases "view_call (EnterArray name) d")
     (auto simp add: Viewer_array_def view_call_def split: prod.splits)

subsection \<open>A sink that rejects a leaf of the blob renderer\<close>

lemma hexdump_lines_fails:
  "hexdump_lines ls d = (Some e, d') \<Longrightarrow>
   \<exists>k<length ls. calls d' =
      calls d @ map (\<lambda>l. (line_call l, True)) (take k ls) @ [(line_call (ls ! k), False)]"
proof (induction ls arbitrary: d)
  case Nil
  then show ?case by simp
next
  case (Cons l ls)
  obtain e1 d1 where c: "view_call (line_call l) d = (e1, d1)"
    by (cases "view_call (line_call l) d")
  show ?case
  proof (cases e1)
    case None
    with c Cons.prems have "hexdump_lines ls d1 = (Some e, d')" by simp
    from Cons.IH[OF this] obtain k where k: "k < length ls"
      and cs: "calls d' =
        calls d1 @ map (\<lambda>l. (line_call l, True)) (take k ls) @ [(line_call (ls ! k), False)]"
      by blast
    from view_call_calls[OF c] None cs
    have "calls d' = calls d @ map (\<lambda>l. (line_call l, True)) (take (Suc k) (l # ls)) @
            [(line_call ((l # ls) ! Suc k), False)]"
      by simp
    with k show ?thesis by (intro exI[of _ "Suc k"]) simp
  next
    case (Some err)
    with c Cons.prems have "d' = d1" by simp
    with view_call_calls[OF c] Some
    have "calls d' = calls d @ map (\<lambda>l. (line_call l, True)) (take 0 (l # ls)) @
            [(line_call ((l # ls) ! 0), False)]"
      by simp
    then show ?thesis by (intro exI[of _ 0]) simp
  qed
qed

lemma hexdump_fails:
  assumes "fst (hexdump il data limit d) = Some e"
  shows "\<exists>k c. k \<le> length (il (take limit data)) \<and>
           calls (snd (hexdump il data limit d)) =
             calls d @ map (\<lambda>l. (line_call l, True)) (take k (il (take limit data))) @
             [(c, False)]"
proof -
  obtain e1 d1 where h: "hexdump_lines (il (take limit data)) d = (e1, d1)"
    by (cases "hexdump_lines (il (take limit data)) d")
  show ?thesis
  proof (cases e1)
    case (Some err)
    from hexdump_lines_fails[OF h[unfolded Some]] obtain k
      where "k < length (il (take limit data))"
        and "calls d1 = calls d @ map (\<lambda>l. (line_call l, True)) (take k (il (take limit data))) @
            [(line_call (il (take limit data) ! k), False)]"
      by blast
    with h Some show ?thesis
      by (intro exI[of _ k] exI[of _ "line_call (il (take limit data) ! k)"])
         (simp add: hexdump_def)
  next
    case None
    from hexdump_lines_calls[OF h[unfolded None]]
    have c1: "calls d1 = calls d @ map (\<lambda>l. (line_call l, True)) (il (take limit data))" .
    from assms h None have big: "limit < length data" by (auto simp add: hexdump_def split: if_splits)
    obtain e2 d2 where p: "putv (KStr ''dump_size'') (VInt (int (length data))) d1 = (e2, d2)"
      by (cases "putv (KStr ''dump_size'') (VInt (int (length data))) d1")
    with assms h None big have e2: "e2 = Some e" by (simp add: hexdump_def)
    from view_call_calls[OF p[unfolded putv_def]] e2 c1
    have "calls d2 = calls d @
        map (\<lambda>l. (line_call l, True)) (take (length (il (take limit data))) (il (take limit data))) @
        [(Set (KStr ''dump_size'') (VInt (int (length data))), False)]"
      by simp
    with h None big p show ?thesis
      by (intro exI[of _ "length (il (take limit data))"]
            exI[of _ "Set (KStr ''dump_size'') (VInt (int (length data)))"])
         (simp add: hexdump_def)
  qed
qed


subsection \<open>Where the position counter follows the source\<close>

text \<open>
  Where no read raises \<open>EOFError\<close> the position counter follows the source: a \<open>read\<close> or
  typed read that does not raise \<open>EOFError\<close> keeps the counter equal to the offset of the
  source, every \<open>seek\<close> that returns makes them equal, a new sub-reader starts with both
  at 0, and a sub-reader scope gives back a cursor on which they agree if they did
  before.
\<close>

lemma in_step_kept:
  "(in_step d \<and> fst (read sz d) \<noteq> Inl EOFError \<longrightarrow> in_step (snd (read sz d))) \<and>
   (in_step d \<and> fst (scalar name n desc d) \<noteq> Inl EOFError \<longrightarrow>
      in_step (snd (scalar name n desc d))) \<and>
   (fst (seek p d) = None \<longrightarrow> in_step (snd (seek p d))) \<and>
   in_step (substream_enter data d) \<and>
   (in_step d \<and> L \<le> int (length (remaining (stream d))) \<longrightarrow>
      (\<exists>r d'. exec (Substream L body) d = Some (r, d') \<and> in_step d'))"
proof (intro conjI impI)
  show "in_step (substream_enter data d)"
    by (simp add: in_step_def substream_enter_def BytesIO_def)
next
  assume "fst (seek p d) = None"
  then show "in_step (snd (seek p d))"
    by (auto simp add: seek_def stream_seek_def in_step_def split: if_splits)
next
  assume a: "in_step d \<and> L \<le> int (length (remaining (stream d)))"
  obtain x d1 where r: "read (Some L) d = (x, d1)" by (cases "read (Some L) d")
  from a have ne: "fst (read (Some L) d) \<noteq> Inl EOFError" by (simp add: read_EOF_iff)
  with a in_step_read[of d "Some L"] r have 1: "in_step d1" by simp
  show "\<exists>r d'. exec (Substream L body) d = Some (r, d') \<and> in_step d'"
  proof (cases x)
    case (Inl err)
    with r 1 show ?thesis by (simp add: substream_def)
  next
    case (Inr bs)
    from substream_body[where body="exec body" and data=bs and d=d1, OF exec_framed]
    obtain r' d2 where
      "try_finally (exec body) stream_stack_pop (substream_enter bs d1) =
         Some (r', d2\<lparr>stream := stream d1, pos := pos d1, stream_stack := stream_stack d1\<rparr>)"
      by blast
    with r Inr 1 show ?thesis by (simp add: substream_def in_step_def)
  qed
qed (simp_all add: in_step_read in_step_scalar)


section \<open>The claims\<close>

subsection \<open>C1: what a bounded sub-reader leaves behind\<close>

text \<open>
  \<open>substream(-1)\<close> on a cursor with three bytes left (at least \<open>-1\<close> bytes remain), over
  a file and over \<open>io.BytesIO\<close>: \<open>stream.read(-1)\<close> returns all three bytes, so the
  parent's position advances by 3, not by the declared length. \<open>substream(-2)\<close> does the
  same over \<open>io.BytesIO\<close>; over a file \<open>stream.read(-2)\<close> raises \<open>ValueError\<close>, the body
  does not run and the position stays where it was.
\<close>

theorem substream_negative_length:
  "- 1 \<le> int (length (remaining (stream (Decoder (open_rb [1, 2, 3]) (Plain PlainViewer_init) True))))
   \<and> fst (the (exec (Substream (- 1) Skip)
                 (Decoder (open_rb [1, 2, 3]) (Plain PlainViewer_init) True))) = Normal
   \<and> pos (snd (the (exec (Substream (- 1) Skip)
                 (Decoder (open_rb [1, 2, 3]) (Plain PlainViewer_init) True)))) = 3
   \<and> tell (stream (snd (the (exec (Substream (- 1) Skip)
                 (Decoder (open_rb [1, 2, 3]) (Plain PlainViewer_init) True))))) = 3
   \<and> fst (the (exec (Substream (- 1) Skip)
                 (Decoder (BytesIO [1, 2, 3]) (Plain PlainViewer_init) True))) = Normal
   \<and> pos (snd (the (exec (Substream (- 1) Skip)
                 (Decoder (BytesIO [1, 2, 3]) (Plain PlainViewer_init) True)))) = 3
   \<and> tell (stream (snd (the (exec (Substream (- 1) Skip)
                 (Decoder (BytesIO [1, 2, 3]) (Plain PlainViewer_init) True))))) = 3
   \<and> fst (the (exec (Substream (- 2) Skip)
                 (Decoder (BytesIO [1, 2, 3]) (Plain PlainViewer_init) True))) = Normal
   \<and> pos (snd (the (exec (Substream (- 2) Skip)
                 (Decoder (BytesIO [1, 2, 3]) (Plain PlainViewer_init) True)))) = 3
   \<and> fst (the (exec (Substream (- 2) Skip)
                 (Decoder (open_rb [1, 2, 3]) (Plain PlainViewer_init) True))) = Raised ValueError
   \<and> pos (snd (the (exec (Substream (- 2) Skip)
                 (Decoder (open_rb [1, 2, 3]) (Plain PlainViewer_init) True)))) = 0"
  by (simp add: substream_def read_def stream_read_def Let_def try_finally_def
        substream_enter_def stream_stack_pop_def Decoder_def BytesIO_def open_rb_def
        remaining_def)

text \<open>
  C1, for a declared length that is not negative. When \<open>substream(L)\<close> is entered with
  \<open>0 \<le> L\<close> and at least \<open>L\<close> bytes left, then for every body and however the body ends
  (normally, by \<open>return\<close> or by an exception) the scope ends, the cursor that was active
  before is active again, its source and its position counter have advanced by exactly
  \<open>L\<close>, and the stack of suspended cursors is as before.
\<close>

theorem substream_advances_parent:
  "0 \<le> L \<and> L \<le> int (length (remaining (stream d))) \<longrightarrow>
      (\<exists>r d'. exec (Substream L body) d = Some (r, d') \<and>
           stream d' = (stream d)\<lparr>tell := tell (stream d) + nat L\<rparr> \<and>
           pos d' = pos d + L \<and>
           stream_stack d' = stream_stack d)"
proof
  assume "0 \<le> L \<and> L \<le> int (length (remaining (stream d)))"
  then have "read (Some L) d =
      (Inr (take (nat L) (remaining (stream d))),
       d\<lparr>stream := (stream d)\<lparr>tell := tell (stream d) + nat L\<rparr>, pos := pos d + L\<rparr>)"
    by (simp add: read_Some_enough)
  from substream_restores[where body=body, OF this]
  show "\<exists>r d'. exec (Substream L body) d = Some (r, d') \<and>
           stream d' = (stream d)\<lparr>tell := tell (stream d) + nat L\<rparr> \<and>
           pos d' = pos d + L \<and> stream_stack d' = stream_stack d"
    by simp
qed

theorem substream_advances_parent_witness:
  "(0::int) \<le> 2 \<and>
   2 \<le> int (length (remaining (stream (Decoder (open_rb [1, 2, 3]) (Plain PlainViewer_init) True)))) \<and>
   (\<exists>r d'. exec (Substream 2 (Read (Some 5) (\<lambda>data. Skip)))
              (Decoder (open_rb [1, 2, 3]) (Plain PlainViewer_init) True) = Some (r, d') \<and>
           stream d' = \<lparr>buf = [1, 2, 3], tell = 2, is_file = True\<rparr> \<and> pos d' = 2 \<and>
           stream_stack d' = [])"
  using substream_advances_parent [of 2 "Decoder (open_rb [1, 2, 3]) (Plain PlainViewer_init) True"
      "Read (Some 5) (\<lambda>data. Skip)"]
  by (simp add: Decoder_def open_rb_def remaining_def numeral_2_eq_2)

subsection \<open>C2: reads of a requested size\<close>

text \<open>
  \<open>read(-1)\<close> on a source with three bytes left, a file or \<open>io.BytesIO\<close>, does not raise,
  returns all three bytes and advances the position by 3: not "exactly \<open>n\<close> bytes" for
  \<open>n = -1\<close>.
\<close>

theorem read_negative_size:
  "fst (read (Some (- 1)) (Decoder (open_rb [1, 2, 3]) (Plain PlainViewer_init) True))
     = Inr [1, 2, 3]
   \<and> pos (snd (read (Some (- 1)) (Decoder (open_rb [1, 2, 3]) (Plain PlainViewer_init) True)))
     = 3
   \<and> fst (read (Some (- 1)) (Decoder (BytesIO [1, 2, 3]) (Plain PlainViewer_init) True))
     = Inr [1, 2, 3]
   \<and> pos (snd (read (Some (- 1)) (Decoder (BytesIO [1, 2, 3]) (Plain PlainViewer_init) True)))
     = 3"
  by (simp add: read_Some_negative)
     (simp add: Decoder_def BytesIO_def open_rb_def remaining_def)

text \<open>
  C2, for a requested size that is not negative. \<open>read(n)\<close> raises \<open>EOFError\<close> if and only
  if fewer than \<open>n\<close> bytes are left (for every \<open>n\<close>); for \<open>0 \<le> n\<close> it otherwise returns
  exactly \<open>n\<close> bytes and advances the position by \<open>n\<close>. Each typed reader raises
  \<open>EOFError\<close> if and only if fewer bytes are left than its width. \<open>substream(n)\<close> with fewer than \<open>n\<close> bytes left raises \<open>EOFError\<close> whatever
  its body is: the body has not run, and the source is left at its end.
\<close>

theorem read_sized:
  "(fst (read (Some n) d) = Inl EOFError \<longleftrightarrow> int (length (remaining (stream d))) < n) \<and>
   (0 \<le> n \<and> n \<le> int (length (remaining (stream d))) \<longrightarrow>
      read (Some n) d =
        (Inr (take (nat n) (remaining (stream d))),
         d\<lparr>stream := (stream d)\<lparr>tell := tell (stream d) + nat n\<rparr>, pos := pos d + n\<rparr>)
      \<and> int (length (take (nat n) (remaining (stream d)))) = n) \<and>
   (\<forall>(rd, k) \<in> set typed_readers.
      fst (rd name d) = Inl EOFError \<longleftrightarrow> length (remaining (stream d)) < k) \<and>
   (int (length (remaining (stream d))) < n \<longrightarrow>
      substream n body d =
        Some (Raised EOFError,
          d\<lparr>stream := (stream d)\<lparr>tell := tell (stream d) + length (remaining (stream d))\<rparr>\<rparr>))"
proof (intro conjI impI)
  show "fst (read (Some n) d) = Inl EOFError \<longleftrightarrow> int (length (remaining (stream d))) < n"
    by (rule read_EOF_iff)
next
  assume "0 \<le> n \<and> n \<le> int (length (remaining (stream d)))"
  then show "read (Some n) d =
        (Inr (take (nat n) (remaining (stream d))),
         d\<lparr>stream := (stream d)\<lparr>tell := tell (stream d) + nat n\<rparr>, pos := pos d + n\<rparr>)"
    by (simp add: read_Some_enough)
next
  assume "0 \<le> n \<and> n \<le> int (length (remaining (stream d)))"
  then show "int (length (take (nat n) (remaining (stream d)))) = n"
    by (auto simp add: min_def)
next
  show "\<forall>(rd, k) \<in> set typed_readers.
      fst (rd name d) = Inl EOFError \<longleftrightarrow> length (remaining (stream d)) < k"
    using typed_readers_EOF by blast
next
  assume "int (length (remaining (stream d))) < n"
  then show "substream n body d =
        Some (Raised EOFError,
          d\<lparr>stream := (stream d)\<lparr>tell := tell (stream d) + length (remaining (stream d))\<rparr>\<rparr>)"
    by (simp add: substream_def read_Some_short)
qed

theorem read_sized_witness:
  "(0::int) \<le> 2 \<and>
   2 \<le> int (length (remaining (stream (Decoder (BytesIO [1, 2, 3]) (Plain PlainViewer_init) True)))) \<and>
   fst (read (Some 2) (Decoder (BytesIO [1, 2, 3]) (Plain PlainViewer_init) True)) = Inr [1, 2] \<and>
   (u4, 4) \<in> set typed_readers \<and>
   fst (u4 None (Decoder (BytesIO [1, 2, 3]) (Plain PlainViewer_init) True)) = Inl EOFError \<and>
   int (length (remaining (stream (Decoder (BytesIO [1, 2, 3]) (Plain PlainViewer_init) True)))) < 4 \<and>
   fst (the (substream 4 (exec (VSet (KStr ''x'') (VInt 0)))
              (Decoder (BytesIO [1, 2, 3]) (Plain PlainViewer_init) True))) = Raised EOFError \<and>
   calls (snd (the (substream 4 (exec (VSet (KStr ''x'') (VInt 0)))
              (Decoder (BytesIO [1, 2, 3]) (Plain PlainViewer_init) True)))) = []"
  using read_sized [of 2 "Decoder (BytesIO [1, 2, 3]) (Plain PlainViewer_init) True" None
      "exec Skip"]
    read_sized [of 4 "Decoder (BytesIO [1, 2, 3]) (Plain PlainViewer_init) True" None
      "exec (VSet (KStr ''x'') (VInt 0))"]
  by (simp add: Decoder_def BytesIO_def remaining_def typed_readers_def)

subsection \<open>C3: enter and exit calls on the sink\<close>

text \<open>
  Two maps of the same name, one after the other, on the tree sink: the second
  \<open>enter_map\<close> raises \<open>KeyError\<close> inside \<open>set\<close>, before \<open>Viewer.map\<close> has reached its
  \<open>try\<close>, so no \<open>exit\<close> follows it. The sink has seen two calls of \<open>enter_map\<close> and one
  of \<open>exit\<close>.
\<close>

theorem failed_enter_has_no_exit:
  "map fst (calls (snd (the (exec (Seq (VMap (KStr ''a'') Skip) (VMap (KStr ''a'') Skip))
      (Decoder (BytesIO []) (Data DataViewer_init) True)))))
     = [EnterMap (KStr ''a''), Exit, EnterMap (KStr ''a'')]
   \<and> enter_calls (calls (snd (the (exec (Seq (VMap (KStr ''a'') Skip) (VMap (KStr ''a'') Skip))
      (Decoder (BytesIO []) (Data DataViewer_init) True))))) = 2
   \<and> exit_calls (calls (snd (the (exec (Seq (VMap (KStr ''a'') Skip) (VMap (KStr ''a'') Skip))
      (Decoder (BytesIO []) (Data DataViewer_init) True))))) = 1
   \<and> fst (the (exec (Seq (VMap (KStr ''a'') Skip) (VMap (KStr ''a'') Skip))
      (Decoder (BytesIO []) (Data DataViewer_init) True))) = Raised KeyError"
  by (simp add: Viewer_map_def view_call_def try_finally_def Decoder_def
        DataViewer_init_def DataViewer_enter_map_def DataViewer_enter_def DataViewer_set_def
        DataViewer_exit_def Let_def enter_calls_def exit_calls_def)

text \<open>
  C3, counting the enter calls that returned. Every run of code written against the
  interface ends, and among the calls it made on the sink the calls of
  \<open>enter_map\<close>/\<open>enter_array\<close> that returned normally are as many as the calls of \<open>exit\<close>,
  and every \<open>exit\<close> returned normally; this holds whether the run ended normally, by
  \<open>return\<close> or by an exception. On the text sink, where no call fails, all calls of
  \<open>enter_map\<close>/\<open>enter_array\<close> are as many as the calls of \<open>exit\<close>. The same holds for every
  run of \<open>QtDecoder\<close> that ends. An enter call that the tree sink rejects opens no scope
  and has no \<open>exit\<close>.
\<close>

theorem scopes_paired:
  "(\<exists>r d'. exec p d = Some (r, d') \<and>
      take (length (calls d)) (calls d') = calls d \<and>
      entered (new_calls d d') = exit_calls (new_calls d d') \<and>
      (\<forall>c \<in> set (new_calls d d'). fst c = Exit \<longrightarrow> snd c) \<and>
      (is_plain (view d) \<longrightarrow> enter_calls (new_calls d d') = exit_calls (new_calls d d'))) \<and>
   (QtDecoder_run il layout n file v = Some (r0, d0) \<longrightarrow>
      entered (calls d0) = exit_calls (calls d0) \<and>
      (\<forall>c \<in> set (calls d0). fst c = Exit \<longrightarrow> snd c) \<and>
      (is_plain v \<longrightarrow> enter_calls (calls d0) = exit_calls (calls d0))) \<and>
   (fst (view_call (EnterMap name) d) = Some e \<longrightarrow>
      Viewer_map name body d = Some (Raised e, snd (view_call (EnterMap name) d)) \<and>
      calls (snd (view_call (EnterMap name) d)) = calls d @ [(EnterMap name, False)]) \<and>
   (fst (view_call (EnterArray name) d) = Some e \<longrightarrow>
      Viewer_array name body d = Some (Raised e, snd (view_call (EnterArray name) d)) \<and>
      calls (snd (view_call (EnterArray name) d)) = calls d @ [(EnterArray name, False)])"
proof (intro conjI impI)
  assume a: "fst (view_call (EnterMap name) d) = Some e"
  from Viewer_map_rejected[OF a, of body]
  show "Viewer_map name body d = Some (Raised e, snd (view_call (EnterMap name) d))"
    by simp
  from Viewer_map_rejected[OF a, of body]
  show "calls (snd (view_call (EnterMap name) d)) = calls d @ [(EnterMap name, False)]"
    by simp
next
  assume a: "fst (view_call (EnterArray name) d) = Some e"
  from Viewer_array_rejected[OF a, of body]
  show "Viewer_array name body d = Some (Raised e, snd (view_call (EnterArray name) d))"
    by simp
  from Viewer_array_rejected[OF a, of body]
  show "calls (snd (view_call (EnterArray name) d)) = calls d @ [(EnterArray name, False)]"
    by simp
next
  from exec_framed[of p d] obtain r d' where e: "exec p d = Some (r, d')"
    and f: "same_frame d d'" by blast
  from f enter_calls_all_ok[of "new_calls d d'"]
  have "is_plain (view d) \<longrightarrow> enter_calls (new_calls d d') = exit_calls (new_calls d d')"
    by (simp add: same_frame_def paired_def)
  with e f show "\<exists>r d'. exec p d = Some (r, d') \<and>
      take (length (calls d)) (calls d') = calls d \<and>
      entered (new_calls d d') = exit_calls (new_calls d d') \<and>
      (\<forall>c \<in> set (new_calls d d'). fst c = Exit \<longrightarrow> snd c) \<and>
      (is_plain (view d) \<longrightarrow> enter_calls (new_calls d d') = exit_calls (new_calls d d'))"
    by (simp add: same_frame_def paired_def)
next
  assume "QtDecoder_run il layout n file v = Some (r0, d0)"
  then have "same_frame (Decoder file v True) d0"
    unfolding QtDecoder_run_def by (rule atoms_framed)
  then have p: "paired (calls d0)" and ok: "is_plain v \<longrightarrow> list_all snd (calls d0)"
    by (simp_all add: same_frame_def new_calls_def Decoder_def)
  from p show "entered (calls d0) = exit_calls (calls d0)" by (simp add: paired_def)
  from p show "\<forall>c \<in> set (calls d0). fst c = Exit \<longrightarrow> snd c" by (simp add: paired_def)
  {
    assume "is_plain v"
    with ok p enter_calls_all_ok[of "calls d0"]
    show "enter_calls (calls d0) = exit_calls (calls d0)" by (simp add: paired_def)
  }
qed

theorem scopes_paired_witness:
  "is_plain (view (Decoder (BytesIO [1]) (Plain PlainViewer_init) True)) \<and>
   (\<exists>r d'. exec (VMap (KStr ''m'') (VArray (KStr ''a'') (Read (Some 2) (\<lambda>data. Skip))))
              (Decoder (BytesIO [1]) (Plain PlainViewer_init) True) = Some (r, d') \<and>
      enter_calls (new_calls (Decoder (BytesIO [1]) (Plain PlainViewer_init) True) d')
        = exit_calls (new_calls (Decoder (BytesIO [1]) (Plain PlainViewer_init) True) d')) \<and>
   QtDecoder_run (\<lambda>bs. []) (\<lambda>t. Skip) (Suc (Suc (Suc 0)))
      (BytesIO [0, 0, 0, 8, 0x66, 0x72, 0x65, 0x65]) (Plain PlainViewer_init) \<noteq> None \<and>
   enter_calls (calls (snd (the (QtDecoder_run (\<lambda>bs. []) (\<lambda>t. Skip) (Suc (Suc (Suc 0)))
      (BytesIO [0, 0, 0, 8, 0x66, 0x72, 0x65, 0x65]) (Plain PlainViewer_init))))) =
   exit_calls (calls (snd (the (QtDecoder_run (\<lambda>bs. []) (\<lambda>t. Skip) (Suc (Suc (Suc 0)))
      (BytesIO [0, 0, 0, 8, 0x66, 0x72, 0x65, 0x65]) (Plain PlainViewer_init))))) \<and>
   fst (view_call (EnterMap (KStr ''a''))
         (Decoder (BytesIO []) (Data (DataViewer_init\<lparr>store := (\<lambda>a. Dict [(KStr ''a'', VInt 1)])\<rparr>))
            True)) = Some KeyError \<and>
   fst (the (Viewer_map (KStr ''a'') (exec Skip)
         (Decoder (BytesIO []) (Data (DataViewer_init\<lparr>store := (\<lambda>a. Dict [(KStr ''a'', VInt 1)])\<rparr>))
            True))) = Raised KeyError \<and>
   fst (view_call (EnterArray (KStr ''a''))
         (Decoder (BytesIO []) (Data (DataViewer_init\<lparr>store := (\<lambda>a. Dict [(KStr ''a'', VInt 1)])\<rparr>))
            True)) = Some KeyError \<and>
   fst (the (Viewer_array (KStr ''a'') (exec Skip)
         (Decoder (BytesIO []) (Data (DataViewer_init\<lparr>store := (\<lambda>a. Dict [(KStr ''a'', VInt 1)])\<rparr>))
            True))) = Raised KeyError"
proof -
  let ?rejected_d = "Decoder (BytesIO [])
      (Data (DataViewer_init\<lparr>store := (\<lambda>a. Dict [(KStr ''a'', VInt 1)])\<rparr>)) True"
  have rm: "fst (view_call (EnterMap (KStr ''a'')) ?rejected_d) = Some KeyError"
    and ra: "fst (view_call (EnterArray (KStr ''a'')) ?rejected_d) = Some KeyError"
    by (simp_all add: view_call_def Decoder_def DataViewer_init_def DataViewer_enter_map_def
          DataViewer_enter_array_def DataViewer_enter_def DataViewer_set_def Let_def)
  from scopes_paired [of Skip ?rejected_d "\<lambda>bs. []" "\<lambda>t. Skip" 0 "BytesIO []"
      "Plain PlainViewer_init" Normal ?rejected_d "KStr ''a''" KeyError "exec Skip"] rm ra
  have rej: "fst (the (Viewer_map (KStr ''a'') (exec Skip) ?rejected_d)) = Raised KeyError"
    "fst (the (Viewer_array (KStr ''a'') (exec Skip) ?rejected_d)) = Raised KeyError"
    by simp_all
  let ?run = "QtDecoder_run (\<lambda>bs. []) (\<lambda>t. Skip) (Suc (Suc (Suc 0)))
      (BytesIO [0, 0, 0, 8, 0x66, 0x72, 0x65, 0x65]) (Plain PlainViewer_init)"
  have ne: "?run \<noteq> None"
    by (simp add: QtDecoder_run_def Decoder_def BytesIO_def u4_def s4_def scalar_def read_def
          stream_read_def remaining_def unpack_def Let_def substream_def substream_enter_def
          try_finally_def stream_stack_pop_def Viewer_map_def view_call_def atom_body_def
          putv_def quoted_def container_atoms_def layout_atoms_def char_of_def bit_iff_odd)
  then obtain r0 d0 where run: "?run = Some (r0, d0)" by auto
  from scopes_paired [of "VMap (KStr ''m'') (VArray (KStr ''a'') (Read (Some 2) (\<lambda>data. Skip)))"
      "Decoder (BytesIO [1]) (Plain PlainViewer_init) True"
      "\<lambda>bs. []" "\<lambda>t. Skip" "Suc (Suc (Suc 0))" "BytesIO [0, 0, 0, 8, 0x66, 0x72, 0x65, 0x65]"
      "Plain PlainViewer_init" r0 d0 "KStr ''a''" KeyError "exec Skip"] run
  have "(\<exists>r d'. exec (VMap (KStr ''m'') (VArray (KStr ''a'') (Read (Some 2) (\<lambda>data. Skip))))
              (Decoder (BytesIO [1]) (Plain PlainViewer_init) True) = Some (r, d') \<and>
      enter_calls (new_calls (Decoder (BytesIO [1]) (Plain PlainViewer_init) True) d')
        = exit_calls (new_calls (Decoder (BytesIO [1]) (Plain PlainViewer_init) True) d'))"
    and "enter_calls (calls d0) = exit_calls (calls d0)"
    by (auto simp add: Decoder_def)
  with run rm ra rej show ?thesis by (simp add: Decoder_def)
qed

subsection \<open>C4: names in a map of the tree sink\<close>

text \<open>
  C4. When the current container of the tree sink is a map, \<open>set\<close> with a name that is
  already one of its keys raises \<open>KeyError\<close> and leaves the sink as it was; with a new
  name it appends the entry. Hence no map ever holds a name twice: if every map of the
  sink has pairwise different keys before a run of code written against the interface,
  every map has pairwise different keys after it.
\<close>

theorem map_names_unique:
  "(store v (cur v) = Dict m \<and> name \<in> fst ` set m \<longrightarrow>
      DataViewer_set name x v = (Some KeyError, v)) \<and>
   (store v (cur v) = Dict m \<and> name \<notin> fst ` set m \<longrightarrow>
      DataViewer_set name x v =
        (None, v\<lparr>store := (store v)(cur v := Dict (m @ [(name, x)]))\<rparr>)) \<and>
   (unique_names (view d) \<longrightarrow>
      (\<exists>r d'. exec p d = Some (r, d') \<and> unique_names (view d')))"
proof (intro conjI impI)
  assume "unique_names (view d)"
  moreover obtain r d' where "exec p d = Some (r, d')" using exec_framed[of p d] by blast
  ultimately show "\<exists>r d'. exec p d = Some (r, d') \<and> unique_names (view d')"
    using unique_names_exec by blast
qed (simp_all add: DataViewer_set_Dict)

theorem map_names_unique_witness:
  "store (DataViewer_init\<lparr>store := (\<lambda>a. Dict [(KStr ''k'', VInt 1)])\<rparr>)
      (cur (DataViewer_init\<lparr>store := (\<lambda>a. Dict [(KStr ''k'', VInt 1)])\<rparr>))
     = Dict [(KStr ''k'', VInt 1)] \<and>
   KStr ''k'' \<in> fst ` set [(KStr ''k'', VInt 1)] \<and>
   DataViewer_set (KStr ''k'') (VInt 2) (DataViewer_init\<lparr>store := (\<lambda>a. Dict [(KStr ''k'', VInt 1)])\<rparr>)
     = (Some KeyError, DataViewer_init\<lparr>store := (\<lambda>a. Dict [(KStr ''k'', VInt 1)])\<rparr>) \<and>
   KStr ''j'' \<notin> fst ` set [(KStr ''k'', VInt 1)] \<and>
   fst (DataViewer_set (KStr ''j'') (VInt 2)
         (DataViewer_init\<lparr>store := (\<lambda>a. Dict [(KStr ''k'', VInt 1)])\<rparr>)) = None \<and>
   unique_names (view (Decoder (BytesIO []) (Data DataViewer_init) True)) \<and>
   (\<exists>r d'. exec (Seq (VSet (KStr ''k'') (VInt 1)) (VSet (KStr ''k'') (VInt 2)))
              (Decoder (BytesIO []) (Data DataViewer_init) True) = Some (r, d')
           \<and> unique_names (view d'))"
  using map_names_unique [of "DataViewer_init\<lparr>store := (\<lambda>a. Dict [(KStr ''k'', VInt 1)])\<rparr>"
      "[(KStr ''k'', VInt 1)]" "KStr ''k''" "VInt 2"
      "Decoder (BytesIO []) (Data DataViewer_init) True"
      "Seq (VSet (KStr ''k'') (VInt 1)) (VSet (KStr ''k'') (VInt 2))"]
    map_names_unique [of "DataViewer_init\<lparr>store := (\<lambda>a. Dict [(KStr ''k'', VInt 1)])\<rparr>"
      "[(KStr ''k'', VInt 1)]" "KStr ''j''" "VInt 2"
      "Decoder (BytesIO []) (Data DataViewer_init) True" Skip]
  by (simp add: DataViewer_init_def Decoder_def unique_names_def)

subsection \<open>C5: indices in an array of the tree sink\<close>

text \<open>
  C5. When the current container of the tree sink is an array, \<open>set\<close> with a name other
  than the array's current length raises \<open>IndexError\<close> and leaves the sink as it was;
  with that index it appends the value. The array that \<open>enter_array\<close> opens is empty (the
  new object is not the container that was current), so its first \<open>set\<close> must supply 0;
  and when a sequence of \<open>set\<close> calls in an empty array all succeed, the names they
  supplied are exactly 0, 1, 2, ... in this order and the array holds their values.
\<close>

theorem array_indices_in_sequence:
  "(store v (cur v) = List xs \<and> name \<noteq> KInt (int (length xs)) \<longrightarrow>
      DataViewer_set name x v = (Some IndexError, v)) \<and>
   (store v (cur v) = List xs \<and> name = KInt (int (length xs)) \<longrightarrow>
      DataViewer_set name x v = (None, v\<lparr>store := (store v)(cur v := List (xs @ [x]))\<rparr>)) \<and>
   (cur v \<noteq> fresh v \<and> DataViewer_enter_array name v = (None, v') \<longrightarrow>
      store v' (cur v') = List []) \<and>
   (view d = Data v \<and> store v (cur v) = List [] \<and> exec (set_all kxs) d = Some (Normal, d') \<longrightarrow>
      map fst kxs = map (\<lambda>i. KInt (int i)) [0 ..< length kxs] \<and>
      (\<exists>w. view d' = Data w \<and> store w (cur w) = List (map snd kxs)))"
proof (intro conjI impI)
  assume "cur v \<noteq> fresh v \<and> DataViewer_enter_array name v = (None, v')"
  then show "store v' (cur v') = List []"
    by (auto simp add: DataViewer_enter_array_def DataViewer_enter_def DataViewer_set_def Let_def
          split: container.splits if_splits)
next
  assume a: "view d = Data v \<and> store v (cur v) = List [] \<and>
    exec (set_all kxs) d = Some (Normal, d')"
  with set_all_List[of d v "[]" kxs d']
  show "map fst kxs = map (\<lambda>i. KInt (int i)) [0 ..< length kxs]" by simp
  from a set_all_List[of d v "[]" kxs d']
  show "\<exists>w. view d' = Data w \<and> store w (cur w) = List (map snd kxs)" by simp
qed (simp_all add: DataViewer_set_List)

theorem array_indices_in_sequence_witness:
  "store (DataViewer_init\<lparr>store := (\<lambda>a. List [VInt 7])\<rparr>)
      (cur (DataViewer_init\<lparr>store := (\<lambda>a. List [VInt 7])\<rparr>)) = List [VInt 7] \<and>
   KInt 0 \<noteq> KInt (int (length [VInt 7])) \<and>
   DataViewer_set (KInt 0) (VInt 8) (DataViewer_init\<lparr>store := (\<lambda>a. List [VInt 7])\<rparr>)
     = (Some IndexError, DataViewer_init\<lparr>store := (\<lambda>a. List [VInt 7])\<rparr>) \<and>
   fst (DataViewer_set (KInt 1) (VInt 8) (DataViewer_init\<lparr>store := (\<lambda>a. List [VInt 7])\<rparr>))
     = None \<and>
   cur DataViewer_init \<noteq> fresh DataViewer_init \<and>
   fst (DataViewer_enter_array (KStr ''a'') DataViewer_init) = None \<and>
   store (snd (DataViewer_enter_array (KStr ''a'') DataViewer_init))
     (cur (snd (DataViewer_enter_array (KStr ''a'') DataViewer_init))) = List [] \<and>
   fst (the (exec (set_all [(KInt 0, VInt 5), (KInt 1, VInt 6)])
          (Decoder (BytesIO []) (Data (DataViewer_init\<lparr>store := (\<lambda>a. List [])\<rparr>)) True)))
     = Normal \<and>
   map fst [(KInt 0, VInt 5), (KInt 1, VInt 6)] = map (\<lambda>i. KInt (int i)) [0 ..< 2]"
  using array_indices_in_sequence [of "DataViewer_init\<lparr>store := (\<lambda>a. List [VInt 7])\<rparr>"
      "[VInt 7]" "KInt 0" "VInt 8" DataViewer_init
      "Decoder (BytesIO []) (Data (DataViewer_init\<lparr>store := (\<lambda>a. List [])\<rparr>)) True"
      "[(KInt 0, VInt 5), (KInt 1, VInt 6)]"
      "snd (the (exec (set_all [(KInt 0, VInt 5), (KInt 1, VInt 6)])
          (Decoder (BytesIO []) (Data (DataViewer_init\<lparr>store := (\<lambda>a. List [])\<rparr>)) True)))"]
    array_indices_in_sequence [of DataViewer_init "[]" "KStr ''a''" "VInt 8"
      "snd (DataViewer_enter_array (KStr ''a'') DataViewer_init)"
      "Decoder (BytesIO []) (Data (DataViewer_init\<lparr>store := (\<lambda>a. List [])\<rparr>)) True" "[]"
      "Decoder (BytesIO []) (Data (DataViewer_init\<lparr>store := (\<lambda>a. List [])\<rparr>)) True"]
  by (simp add: DataViewer_init_def Decoder_def DataViewer_set_def DataViewer_enter_array_def
        DataViewer_enter_def Let_def vset_def view_call_def upt_rec)

subsection \<open>C6: how the record loop of \<open>QtDecoder\<close> ends\<close>

text \<open>
  Six bytes are left, too few for the 8-byte header: the length prefix 16 is read and
  the read of the type raises \<open>EOFError\<close>, which \<open>atom\<close> does not catch. The loop ends
  with an error.
\<close>

theorem truncated_type_raises:
  "length (remaining (stream (Decoder (BytesIO [0, 0, 0, 16, 0x61, 0x62]) (Plain PlainViewer_init) True)))
     = 6 \<and>
   fst (the (atoms (\<lambda>bs. []) (\<lambda>t. Skip) (Suc (Suc 0))
     (Decoder (BytesIO [0, 0, 0, 16, 0x61, 0x62]) (Plain PlainViewer_init) True)))
     = Raised EOFError \<and>
   fst (the (QtDecoder_run (\<lambda>bs. []) (\<lambda>t. Skip) (Suc (Suc 0))
     (BytesIO [0, 0, 0, 16, 0x61, 0x62]) (Plain PlainViewer_init)))
     = Raised EOFError"
  by (simp add: QtDecoder_run_def u4_def s4_def scalar_def read_def
        stream_read_def Let_def Decoder_def BytesIO_def remaining_def unpack_def)

text \<open>
  C6, for a length prefix that cannot be read. At every level (for every state of the
  decoder) the loop \<open>atoms\<close> ends without error when fewer than 4 bytes are left, so that
  the length prefix cannot be read, and when the length prefix is 0; in both cases the
  sink receives no call. In particular a run whose first four bytes are 0 ends without
  error and with no entry in the sink. When the length prefix is read and is not 0 but
  fewer than 4 bytes follow it, the read of the type raises \<open>EOFError\<close> and the loop ends
  with that error. Fuel 2 is enough in all these cases.
\<close>

theorem record_loop_ends:
  "(length (remaining (stream d)) < 4 \<longrightarrow>
      atoms il layout (Suc (Suc n)) d =
        Some (Normal,
          d\<lparr>stream := (stream d)\<lparr>tell := tell (stream d) + length (remaining (stream d))\<rparr>\<rparr>)) \<and>
   (take 4 (remaining (stream d)) = [0, 0, 0, 0] \<longrightarrow>
      atoms il layout (Suc (Suc n)) d =
        Some (Normal,
          d\<lparr>stream := (stream d)\<lparr>tell := tell (stream d) + 4\<rparr>, pos := pos d + 4\<rparr>)) \<and>
   (take 4 (remaining file) = [0, 0, 0, 0] \<longrightarrow>
      (\<exists>d'. QtDecoder_run il layout (Suc (Suc n)) file v = Some (Normal, d') \<and>
            calls d' = [] \<and> view d' = v)) \<and>
   (4 \<le> length (remaining (stream d)) \<and> length (remaining (stream d)) < 8 \<and>
    take 4 (remaining (stream d)) \<noteq> [0, 0, 0, 0] \<longrightarrow>
      (\<exists>d'. atoms il layout (Suc (Suc n)) d = Some (Raised EOFError, d')))"
proof (intro conjI impI)
  assume "4 \<le> length (remaining (stream d)) \<and> length (remaining (stream d)) < 8 \<and>
    take 4 (remaining (stream d)) \<noteq> [0, 0, 0, 0]"
  then show "\<exists>d'. atoms il layout (Suc (Suc n)) d = Some (Raised EOFError, d')"
    using atoms_truncated_type[of d il layout n] by blast
next
  assume "take 4 (remaining file) = [0, 0, 0, 0]"
  then have "take 4 (remaining (stream (Decoder file v True))) = [0, 0, 0, 0]"
    by (simp add: Decoder_def)
  from atoms_sentinel[OF this, of il layout n]
  show "\<exists>d'. QtDecoder_run il layout (Suc (Suc n)) file v = Some (Normal, d') \<and>
            calls d' = [] \<and> view d' = v"
    by (simp add: QtDecoder_run_def Decoder_def)
qed (simp_all only: atoms_short atoms_sentinel)

theorem record_loop_ends_witness:
  "length (remaining (stream (Decoder (BytesIO [1, 2, 3]) (Plain PlainViewer_init) True))) < 4 \<and>
   atoms (\<lambda>bs. []) (\<lambda>t. Skip) (Suc (Suc 0)) (Decoder (BytesIO [1, 2, 3]) (Plain PlainViewer_init) True) =
     Some (Normal, \<lparr>stream = \<lparr>buf = [1, 2, 3], tell = 3, is_file = False\<rparr>, view = Plain PlainViewer_init,
             pos = 0, big = True, stream_stack = [], calls = []\<rparr>) \<and>
   take 4 (remaining (BytesIO [0, 0, 0, 0, 9, 9])) = [0, 0, 0, 0] \<and>
   (\<exists>d'. QtDecoder_run (\<lambda>bs. []) (\<lambda>t. Skip) (Suc (Suc 0)) (BytesIO [0, 0, 0, 0, 9, 9]) (Plain PlainViewer_init)
            = Some (Normal, d') \<and> calls d' = [] \<and> view d' = Plain PlainViewer_init) \<and>
   4 \<le> length (remaining (stream
          (Decoder (BytesIO [0, 0, 0, 16, 0x61, 0x62]) (Plain PlainViewer_init) True))) \<and>
   length (remaining (stream
          (Decoder (BytesIO [0, 0, 0, 16, 0x61, 0x62]) (Plain PlainViewer_init) True))) < 8 \<and>
   take 4 (remaining (stream
          (Decoder (BytesIO [0, 0, 0, 16, 0x61, 0x62]) (Plain PlainViewer_init) True)))
     \<noteq> [0, 0, 0, 0] \<and>
   (\<exists>d'. atoms (\<lambda>bs. []) (\<lambda>t. Skip) (Suc (Suc 0))
           (Decoder (BytesIO [0, 0, 0, 16, 0x61, 0x62]) (Plain PlainViewer_init) True)
           = Some (Raised EOFError, d'))"
  using record_loop_ends [of "Decoder (BytesIO [1, 2, 3]) (Plain PlainViewer_init) True"
      "\<lambda>bs. []" "\<lambda>t. Skip" 0 "BytesIO [0, 0, 0, 0, 9, 9]" "Plain PlainViewer_init"]
    record_loop_ends [of "Decoder (BytesIO [0, 0, 0, 16, 0x61, 0x62]) (Plain PlainViewer_init) True"
      "\<lambda>bs. []" "\<lambda>t. Skip" 0 "BytesIO [0, 0, 0, 0, 9, 9]" "Plain PlainViewer_init"]
  by (simp add: Decoder_def BytesIO_def remaining_def)

subsection \<open>C7: the blob renderer\<close>

text \<open>
  A range of 300 bytes on the tree sink while the current container is an array: the
  first \<open>set\<close> of \<open>hexdump\<close> names a line, not the index 0, so \<open>DataViewer.set\<close> raises
  \<open>IndexError\<close>; \<open>hexdump\<close> ends there and no \<open>dump_size\<close> leaf is recorded. The same
  happens with \<open>KeyError\<close> when the current map already holds the name of a line.
\<close>

theorem blob_rejected_by_tree_sink:
  "256 < length (replicate 300 (0::byte)) \<and>
   fst (hexdump (\<lambda>bs. ['' 0000: 00 00'']) (replicate 300 0) 256
          (Decoder (BytesIO []) (Data (DataViewer_init\<lparr>store := (\<lambda>a. List [])\<rparr>)) True))
     = Some IndexError \<and>
   calls (snd (hexdump (\<lambda>bs. ['' 0000: 00 00'']) (replicate 300 0) 256
          (Decoder (BytesIO []) (Data (DataViewer_init\<lparr>store := (\<lambda>a. List [])\<rparr>)) True)))
     = [(Set (KStr ''0000'') (VStr ''00 00''), False)] \<and>
   fst (hexdump (\<lambda>bs. ['' 0000: 00 00'']) (replicate 300 0) 256
          (Decoder (BytesIO [])
             (Data (DataViewer_init\<lparr>store := (\<lambda>a. Dict [(KStr ''0000'', VInt 1)])\<rparr>)) True))
     = Some KeyError \<and>
   calls (snd (hexdump (\<lambda>bs. ['' 0000: 00 00'']) (replicate 300 0) 256
          (Decoder (BytesIO [])
             (Data (DataViewer_init\<lparr>store := (\<lambda>a. Dict [(KStr ''0000'', VInt 1)])\<rparr>)) True)))
     = [(Set (KStr ''0000'') (VStr ''00 00''), False)]"
  by (simp add: hexdump_def view_call_def Decoder_def DataViewer_init_def DataViewer_set_def
        line_call_def offset_name_def)

text \<open>
  C7, for a sink that accepts the leaves. \<open>hexdump\<close> with the default limit 256 gives the
  renderer the first 256 bytes of the range when the range is longer, and the whole range
  otherwise. When no \<open>set\<close> fails (on the text sink none does), the calls it makes on the
  sink are one \<open>set\<close> for each line of the renderer, followed by
  \<open>set('dump_size', len(data))\<close> exactly when the range is longer than 256 bytes: for a
  range of 300 bytes, 256 bytes rendered and one leaf recording 300. When the sink
  rejects a \<open>set\<close>, \<open>hexdump\<close> ends with that error: the calls before the rejected one are
  \<open>set\<close> calls for the first lines, and nothing follows the rejected call.
\<close>

theorem blob_capped:
  "(is_plain (view d) \<longrightarrow> fst (hexdump il data 256 d) = None) \<and>
   (fst (hexdump il data 256 d) = None \<longrightarrow>
      calls (snd (hexdump il data 256 d)) =
        calls d @ map (\<lambda>l. (line_call l, True)) (il (take 256 data)) @
        (if 256 < length data
         then [(Set (KStr ''dump_size'') (VInt (int (length data))), True)] else [])) \<and>
   (fst (hexdump il data 256 d) = Some e \<longrightarrow>
      (\<exists>k c. k \<le> length (il (take 256 data)) \<and>
         calls (snd (hexdump il data 256 d)) =
           calls d @ map (\<lambda>l. (line_call l, True)) (take k (il (take 256 data))) @
           [(c, False)])) \<and>
   (256 < length data \<longrightarrow> length (take 256 data) = 256) \<and>
   (length data \<le> 256 \<longrightarrow> take 256 data = data)"
proof (intro conjI impI)
  assume "fst (hexdump il data 256 d) = Some e"
  then show "\<exists>k c. k \<le> length (il (take 256 data)) \<and>
         calls (snd (hexdump il data 256 d)) =
           calls d @ map (\<lambda>l. (line_call l, True)) (take k (il (take 256 data))) @
           [(c, False)]"
    by (rule hexdump_fails)
next
  obtain e d1 where h: "hexdump_lines (il (take 256 data)) d = (e, d1)"
    by (cases "hexdump_lines (il (take 256 data)) d")
  {
    assume p: "is_plain (view d)"
    from hexdump_lines_plain[OF p, of "il (take 256 data)"] h
    have "e = None" "is_plain (view d1)" by simp_all
    with h view_call_plain[of d1 "Set (KStr ''dump_size'') (VInt (int (length data)))"]
    show "fst (hexdump il data 256 d) = None"
      by (simp add: hexdump_def putv_def)
  }
  {
    assume ok: "fst (hexdump il data 256 d) = None"
    with h have e: "e = None" by (cases e) (simp_all add: hexdump_def)
    from hexdump_lines_calls[OF h[unfolded e]]
    have c1: "calls d1 = calls d @ map (\<lambda>l. (line_call l, True)) (il (take 256 data))" .
    show "calls (snd (hexdump il data 256 d)) =
        calls d @ map (\<lambda>l. (line_call l, True)) (il (take 256 data)) @
        (if 256 < length data
         then [(Set (KStr ''dump_size'') (VInt (int (length data))), True)] else [])"
    proof (cases "256 < length data")
      case True
      obtain e2 d2 where p: "putv (KStr ''dump_size'') (VInt (int (length data))) d1 = (e2, d2)"
        by (cases "putv (KStr ''dump_size'') (VInt (int (length data))) d1")
      with ok h e True have "e2 = None" by (simp add: hexdump_def)
      with view_call_calls[OF p[unfolded putv_def]] c1 h e True p show ?thesis
        by (simp add: hexdump_def)
    next
      case False
      with h e c1 show ?thesis by (simp add: hexdump_def)
    qed
  }
qed simp_all

theorem blob_capped_witness:
  "is_plain (view (Decoder (BytesIO []) (Plain PlainViewer_init) True)) \<and>
   fst (hexdump (\<lambda>bs. ['' 0000: 00 00'']) (replicate 300 0) 256
          (Decoder (BytesIO []) (Plain PlainViewer_init) True)) = None \<and>
   calls (snd (hexdump (\<lambda>bs. ['' 0000: 00 00'']) (replicate 300 0) 256
          (Decoder (BytesIO []) (Plain PlainViewer_init) True))) =
     [(Set (KStr ''0000'') (VStr ''00 00''), True), (Set (KStr ''dump_size'') (VInt 300), True)] \<and>
   256 < length (replicate 300 (0::byte)) \<and>
   length (take 256 (replicate 300 (0::byte))) = 256 \<and>
   length [1, 2, 3 :: byte] \<le> 256 \<and>
   take 256 [1, 2, 3 :: byte] = [1, 2, 3] \<and>
   fst (hexdump (\<lambda>bs. ['' 0000: 00 00'']) (replicate 300 0) 256
          (Decoder (BytesIO []) (Data (DataViewer_init\<lparr>store := (\<lambda>a. List [])\<rparr>)) True))
     = Some IndexError \<and>
   (\<exists>k c. k \<le> length ['' 0000: 00 00''] \<and>
      calls (snd (hexdump (\<lambda>bs. ['' 0000: 00 00'']) (replicate 300 0) 256
          (Decoder (BytesIO []) (Data (DataViewer_init\<lparr>store := (\<lambda>a. List [])\<rparr>)) True))) =
        map (\<lambda>l. (line_call l, True)) (take k ['' 0000: 00 00'']) @ [(c, False)])"
proof -
  have rejected: "fst (hexdump (\<lambda>bs. ['' 0000: 00 00'']) (replicate 300 0) 256
          (Decoder (BytesIO []) (Data (DataViewer_init\<lparr>store := (\<lambda>a. List [])\<rparr>)) True))
     = Some IndexError"
    by (simp add: hexdump_def view_call_def Decoder_def DataViewer_init_def DataViewer_set_def
          line_call_def offset_name_def)
  from blob_capped [of "Decoder (BytesIO []) (Data (DataViewer_init\<lparr>store := (\<lambda>a. List [])\<rparr>)) True"
      "\<lambda>bs. ['' 0000: 00 00'']" "replicate 300 0" IndexError] rejected
  have "\<exists>k c. k \<le> length ['' 0000: 00 00''] \<and>
      calls (snd (hexdump (\<lambda>bs. ['' 0000: 00 00'']) (replicate 300 0) 256
          (Decoder (BytesIO []) (Data (DataViewer_init\<lparr>store := (\<lambda>a. List [])\<rparr>)) True))) =
        map (\<lambda>l. (line_call l, True)) (take k ['' 0000: 00 00'']) @ [(c, False)]"
    by (simp add: Decoder_def)
  with rejected
    blob_capped [of "Decoder (BytesIO []) (Plain PlainViewer_init) True"
      "\<lambda>bs. ['' 0000: 00 00'']" "replicate 300 0" IndexError]
    blob_capped [of "Decoder (BytesIO []) (Plain PlainViewer_init) True"
      "\<lambda>bs. ['' 0000: 00 00'']" "[1, 2, 3]" IndexError]
  show ?thesis by (simp add: Decoder_def line_call_def offset_name_def)
qed

subsection \<open>C8: the position counter\<close>

text \<open>
  C8 fails in \<open>Decoder.read\<close> itself. With fewer bytes left than requested,
  \<open>self.stream.read(size)\<close> has consumed what was left when \<open>EOFError\<close> is raised, and
  \<open>self.pos += len(data)\<close>, which follows the \<open>raise\<close>, is not reached. After \<open>read(4)\<close>
  or \<open>u4()\<close> on a source with two bytes left the source is at offset 2 and the position
  counter at 0. \<open>QtDecoder.atom\<close> catches this error: the run on a file of three bytes
  ends without error, with the file at offset 3 and the position counter at 0.
\<close>

theorem failed_read_out_of_step:
  "in_step (Decoder (open_rb [1, 2]) (Plain PlainViewer_init) True) \<and>
   fst (read (Some 4) (Decoder (open_rb [1, 2]) (Plain PlainViewer_init) True)) = Inl EOFError \<and>
   tell (stream (snd (read (Some 4) (Decoder (open_rb [1, 2]) (Plain PlainViewer_init) True)))) = 2 \<and>
   pos (snd (read (Some 4) (Decoder (open_rb [1, 2]) (Plain PlainViewer_init) True))) = 0 \<and>
   \<not> in_step (snd (read (Some 4) (Decoder (open_rb [1, 2]) (Plain PlainViewer_init) True))) \<and>
   fst (u4 None (Decoder (open_rb [1, 2]) (Plain PlainViewer_init) True)) = Inl EOFError \<and>
   \<not> in_step (snd (u4 None (Decoder (open_rb [1, 2]) (Plain PlainViewer_init) True))) \<and>
   fst (the (QtDecoder_run (\<lambda>bs. []) (\<lambda>t. Skip) (Suc (Suc 0)) (open_rb [1, 2, 3])
               (Plain PlainViewer_init))) = Normal \<and>
   tell (stream (snd (the (QtDecoder_run (\<lambda>bs. []) (\<lambda>t. Skip) (Suc (Suc 0)) (open_rb [1, 2, 3])
               (Plain PlainViewer_init))))) = 3 \<and>
   pos (snd (the (QtDecoder_run (\<lambda>bs. []) (\<lambda>t. Skip) (Suc (Suc 0)) (open_rb [1, 2, 3])
               (Plain PlainViewer_init)))) = 0"
  by (simp add: in_step_def QtDecoder_run_def u4_def scalar_def read_def stream_read_def Let_def
        Decoder_def open_rb_def remaining_def)

subsection \<open>C10: \<open>read\<close> without a size\<close>

text \<open>
  C10. \<open>read()\<close> has no failing branch: in every state it returns all the bytes left in
  the active source (none, when none is left), advances the source and the position
  counter by the number of bytes returned, and leaves nothing to read.
\<close>

theorem read_without_size:
  "read None d =
     (Inr (remaining (stream d)),
      d\<lparr>stream := (stream d)\<lparr>tell := tell (stream d) + length (remaining (stream d))\<rparr>,
        pos := pos d + int (length (remaining (stream d)))\<rparr>)
   \<and> remaining (stream (snd (read None d))) = []"
  by (simp add: read_None) (simp add: remaining_def)

end
